theory Spec2Isabelle
  imports Complex_Main
begin

section \<open>Text, bytes and UTF-8\<close>

text \<open>
  A Python text string is a sequence of code points; a byte string is a sequence of
  numbers below 256.  \<open>str.encode('utf-8')\<close> raises \<open>UnicodeEncodeError\<close> on a
  surrogate code point; that is the value \<open>None\<close> here.
\<close>

type_synonym ustr = "nat list"
type_synonym byte = nat

definition ascii :: "string \<Rightarrow> ustr" where
  "ascii cs = map of_char cs"

definition NL :: ustr where
  "NL = [0x0A]"

definition utf8_char :: "nat \<Rightarrow> byte list option" where
  "utf8_char c =
     (if c < 0x80 then Some [c]
      else if c < 0x800 then Some [0xC0 + c div 0x40, 0x80 + c mod 0x40]
      else if 0xD800 \<le> c \<and> c < 0xE000 then None
      else if c < 0x10000 then
        Some [0xE0 + c div 0x1000, 0x80 + (c div 0x40) mod 0x40, 0x80 + c mod 0x40]
      else if c < 0x110000 then
        Some [0xF0 + c div 0x40000, 0x80 + (c div 0x1000) mod 0x40,
              0x80 + (c div 0x40) mod 0x40, 0x80 + c mod 0x40]
      else None)"

fun utf8_encode :: "ustr \<Rightarrow> byte list option" where
  "utf8_encode [] = Some []"
| "utf8_encode (c # cs) =
     (case utf8_char c of
        None \<Rightarrow> None
      | Some b \<Rightarrow> (case utf8_encode cs of None \<Rightarrow> None | Some bs \<Rightarrow> Some (b @ bs)))"

text \<open>\<open>s.replace(old, new)\<close> for a one-character \<open>old\<close>.\<close>

definition replace :: "nat \<Rightarrow> ustr \<Rightarrow> ustr \<Rightarrow> ustr" where
  "replace old new s = concat (map (\<lambda>c. if c = old then new else [c]) s)"

text \<open>\<open>s.rstrip('\n')\<close>: every trailing newline is removed.\<close>

definition rstrip_nl :: "ustr \<Rightarrow> ustr" where
  "rstrip_nl s = rev (dropWhile (\<lambda>c. c = 0x0A) (rev s))"


section \<open>Module constants\<close>

definition QUEUE_SIZE :: nat where
  "QUEUE_SIZE = 32768"

definition MIN_DELAY :: rat where
  "MIN_DELAY = 1 / 10"

definition MAX_DELAY :: rat where
  "MAX_DELAY = 10"

definition LE :: string where
  "LE = ''LE: ''"

definition INVALID_TOKEN :: string where
  "INVALID_TOKEN = [CHR 0x0A, CHR 0x0A] @ ''It appears the LOGENTRIES_TOKEN ''
     @ ''parameter you entered is incorrect!'' @ [CHR 0x0A, CHR 0x0A]"

definition LIBRARY_IDENTIFIER :: ustr where
  "LIBRARY_IDENTIFIER = ascii ''###P01### - Library Initialised''"


section \<open>The helpers module\<close>

text \<open>
  \<open>logentries.helpers\<close> is not among the sources.  Its functions are modelled
  here; \<open>check_token\<close> is a parameter of the handler's constructor.
\<close>

text \<open>Modelled from the spec: \<open>to_unicode\<close> applied to the escape of U+2028, the single reserved
  line-separator character U+2028 that replaces an embedded newline.\<close>

definition LINE_SEP :: ustr where
  "LINE_SEP = [0x2028]"

text \<open>Modelled from the spec: \<open>is_unicode\<close> of the helpers module.  A message is a
  text line, so every queued item is text already.\<close>

definition is_unicode :: "ustr \<Rightarrow> bool" where
  "is_unicode data = True"

text \<open>Modelled from the spec: \<open>create_unicode\<close> of the helpers module, which turns an
  item that is not text into text; a text line is taken as it is.\<close>

definition create_unicode :: "ustr \<Rightarrow> ustr" where
  "create_unicode data = data"

text \<open>Modelled from the spec: the queue that \<open>create_queue\<close> of the helpers module
  returns, a bounded FIFO buffer of pending lines with a fixed capacity.\<close>

record msg_queue =
  maxsize :: nat
  items :: "ustr list"

text \<open>Modelled from the spec: \<open>create_queue(max_size)\<close> of the helpers module; the
  queue is empty and has the capacity \<open>max_size\<close>.\<close>

definition create_queue :: "nat \<Rightarrow> msg_queue" where
  "create_queue max_size = \<lparr>maxsize = max_size, items = []\<rparr>"

text \<open>Modelled from the spec: \<open>put\<close> of that queue inserts at the tail and blocks the
  caller when the queue is at capacity; \<open>None\<close> is the blocked call.\<close>

definition queue_put :: "ustr \<Rightarrow> msg_queue \<Rightarrow> msg_queue option" where
  "queue_put m q =
     (if length (items q) < maxsize q then Some (q\<lparr>items := items q @ [m]\<rparr>) else None)"

text \<open>Modelled from the spec: \<open>get\<close> of that queue removes the head, the oldest
  message, and blocks the caller when the queue is empty; \<open>None\<close> is the blocked call.\<close>

definition queue_get :: "msg_queue \<Rightarrow> (ustr \<times> msg_queue) option" where
  "queue_get q =
     (case items q of [] \<Rightarrow> None | m # ms \<Rightarrow> Some (m, q\<lparr>items := ms\<rparr>))"


section \<open>Exceptions, the environment and outcomes\<close>

datatype exn = KeyboardInterrupt | SocketError | UnicodeEncodeError | RuntimeError | OtherError

text \<open>\<open>except Exception\<close> catches everything but \<open>KeyboardInterrupt\<close>, which derives
  from \<open>BaseException\<close>; \<open>except socket.error\<close> catches socket errors only.\<close>

definition is_Exception :: "exn \<Rightarrow> bool" where
  "is_Exception x = (x \<noteq> KeyboardInterrupt)"

definition is_socket_error :: "exn \<Rightarrow> bool" where
  "is_socket_error x = (x = SocketError)"

text \<open>
  The dispatcher blocks in four calls: \<open>connect\<close>, \<open>time.sleep\<close>, \<open>queue.get\<close> and
  \<open>send\<close>.  The environment is a script: the list of what each of these calls does, in
  the order in which they are made.  A script that is exhausted, or whose next event is
  for another call than the one being made, says nothing about that call: the run is
  \<open>Pending\<close> inside it.  \<open>Blocked\<close> is a \<open>get\<close> on an empty queue or a \<open>put\<close> on a
  full one.
\<close>

datatype answer = Ok | Raise exn

datatype event = Connect answer | Sleep answer | Get answer | Send answer

datatype outcome = Normal | Raised exn | Pending | Blocked

text \<open>\<open>random.uniform(a, b)\<close> is \<open>a + (b - a) * random()\<close>; the generator is the
  sequence \<open>rng\<close> of the values of \<open>random()\<close>, indexed by the number of draws.\<close>

definition uniform :: "rat \<Rightarrow> rat \<Rightarrow> rat \<Rightarrow> rat" where
  "uniform a b u = a + (b - a) * u"


section \<open>SocketAppender\<close>

datatype sock = Unconnected | Connected | Closed

datatype thread_state = Initial | Alive | Stopped

text \<open>
  \<open>conn\<close> and \<open>queue\<close> are the fields of the class, \<open>tstate\<close> is the state of the
  \<open>threading.Thread\<close> it extends.  The other fields record what the code does to the
  outside: \<open>wire\<close> the byte strings that \<open>send\<close> accepted, \<open>sleeps\<close> the arguments
  of the calls of \<open>time.sleep\<close>, \<open>draws\<close> the number of random draws, \<open>printed\<close> the
  lines written to standard output.
\<close>

record SocketAppender =
  conn :: "sock option"
  queue :: msg_queue
  tstate :: thread_state
  wire :: "byte list list"
  sleeps :: "rat list"
  draws :: nat
  printed :: "string list"

definition dbg :: "string \<Rightarrow> SocketAppender \<Rightarrow> SocketAppender" where
  "dbg msg s = s\<lparr>printed := printed s @ [LE @ msg]\<rparr>"

definition SocketAppender_init :: "string list \<Rightarrow> SocketAppender" where
  "SocketAppender_init out =
     \<lparr>conn = None, queue = create_queue QUEUE_SIZE, tstate = Initial,
      wire = [], sleeps = [], draws = 0, printed = out\<rparr>"

definition closeConnection :: "SocketAppender \<Rightarrow> SocketAppender" where
  "closeConnection s = (if conn s \<noteq> None then s\<lparr>conn := Some Closed\<rparr> else s)"

text \<open>\<open>openConnection\<close> creates a socket and connects it; \<open>a\<close> is what \<open>connect\<close> does.\<close>

definition openConnection :: "answer \<Rightarrow> SocketAppender \<Rightarrow> outcome \<times> SocketAppender" where
  "openConnection a s =
     (let s1 = s\<lparr>conn := Some Unconnected\<rparr>
      in case a of
           Ok \<Rightarrow> (Normal, s1\<lparr>conn := Some Connected\<rparr>)
         | Raise x \<Rightarrow> (Raised x, s1))"

text \<open>
  The lines of \<open>reopenConnection\<close> between a failed attempt and the call of
  \<open>time.sleep\<close>: the new \<open>root_delay\<close>, and the state in which \<open>sleep(wait_for)\<close>
  is called.
\<close>

definition backoff :: "(nat \<Rightarrow> rat) \<Rightarrow> rat \<Rightarrow> SocketAppender \<Rightarrow> rat \<times> SocketAppender" where
  "backoff rng root_delay s =
     (let d2 = root_delay * 2;
          d3 = (if d2 > MAX_DELAY then MAX_DELAY else d2);
          wait_for = d3 + uniform 0 d3 (rng (draws s))
      in (d3, s\<lparr>draws := draws s + 1, sleeps := sleeps s @ [wait_for]\<rparr>))"

text \<open>The loop of \<open>reopenConnection\<close>, with its local variable \<open>root_delay\<close>.  An
  exception of \<open>time.sleep\<close> is raised again, whatever it is.\<close>

fun reopen_loop ::
  "(nat \<Rightarrow> rat) \<Rightarrow> rat \<Rightarrow> event list \<Rightarrow> SocketAppender \<Rightarrow> outcome \<times> event list \<times> SocketAppender"
where
  "reopen_loop rng root_delay (Connect a # es) s =
     (case openConnection a s of
        (Raised x, s1) \<Rightarrow>
          if \<not> is_Exception x then (Raised x, es, s1)
          else
            (case backoff rng root_delay (dbg ''Unable to connect to Logentries'' s1) of
               (d, s2) \<Rightarrow>
                 (case es of
                    Sleep Ok # es' \<Rightarrow> reopen_loop rng d es' s2
                  | Sleep (Raise y) # es' \<Rightarrow> (Raised y, es', s2)
                  | _ \<Rightarrow> (Pending, es, s2)))
      | (r, s1) \<Rightarrow> (r, es, s1))"
| "reopen_loop rng root_delay es s = (Pending, es, s)"

definition reopenConnection ::
  "(nat \<Rightarrow> rat) \<Rightarrow> event list \<Rightarrow> SocketAppender \<Rightarrow> outcome \<times> event list \<times> SocketAppender"
where
  "reopenConnection rng es s = reopen_loop rng MIN_DELAY es (closeConnection s)"

text \<open>The delay and the state after a failed attempt, when \<open>sleep\<close> is called.\<close>

definition after_failure :: "(nat \<Rightarrow> rat) \<Rightarrow> rat \<Rightarrow> SocketAppender \<Rightarrow> rat \<times> SocketAppender" where
  "after_failure rng d s =
     backoff rng d (dbg ''Unable to connect to Logentries'' (s\<lparr>conn := Some Unconnected\<rparr>))"

subsection \<open>Equations and induction for the reconnection loop\<close>

lemma reopen_loop_Ok:
  "reopen_loop rng d (Connect Ok # es) s = (Normal, es, s\<lparr>conn := Some Connected\<rparr>)"
  by (simp add: openConnection_def)

lemma reopen_loop_fatal:
  "\<not> is_Exception x \<Longrightarrow>
   reopen_loop rng d (Connect (Raise x) # es) s = (Raised x, es, s\<lparr>conn := Some Unconnected\<rparr>)"
  by (simp add: openConnection_def)

lemma reopen_loop_retry:
  "is_Exception x \<Longrightarrow>
   reopen_loop rng d (Connect (Raise x) # Sleep Ok # es) s =
     reopen_loop rng (fst (after_failure rng d s)) es (snd (after_failure rng d s))"
  by (simp add: openConnection_def after_failure_def split: prod.splits)

lemma reopen_loop_sleep_raises:
  "is_Exception x \<Longrightarrow>
   reopen_loop rng d (Connect (Raise x) # Sleep (Raise y) # es) s =
     (Raised y, es, snd (after_failure rng d s))"
  by (simp add: openConnection_def after_failure_def split: prod.splits)

lemma reopen_loop_no_sleep:
  "is_Exception x \<Longrightarrow> \<forall>a es'. es \<noteq> Sleep a # es' \<Longrightarrow>
   reopen_loop rng d (Connect (Raise x) # es) s = (Pending, es, snd (after_failure rng d s))"
  by (auto simp: openConnection_def after_failure_def split: prod.splits list.splits event.splits answer.splits)

lemma reopen_loop_no_connect:
  "\<forall>a es'. es \<noteq> Connect a # es' \<Longrightarrow> reopen_loop rng d es s = (Pending, es, s)"
  by (cases "(rng, d, es, s)" rule: reopen_loop.cases) auto

lemma reopen_induct [case_names Connected Fatal Retry SleepRaises NoSleep NoConnect]:
  assumes "\<And>d es s. P d (Connect Ok # es) s"
    and "\<And>d x es s. \<not> is_Exception x \<Longrightarrow> P d (Connect (Raise x) # es) s"
    and "\<And>d x es s. is_Exception x \<Longrightarrow>
           P (fst (after_failure rng d s)) es (snd (after_failure rng d s)) \<Longrightarrow>
           P d (Connect (Raise x) # Sleep Ok # es) s"
    and "\<And>d x y es s. is_Exception x \<Longrightarrow> P d (Connect (Raise x) # Sleep (Raise y) # es) s"
    and "\<And>d x es s. is_Exception x \<Longrightarrow> \<forall>a es'. es \<noteq> Sleep a # es' \<Longrightarrow>
           P d (Connect (Raise x) # es) s"
    and "\<And>d es s. \<forall>a es'. es \<noteq> Connect a # es' \<Longrightarrow> P d es s"
  shows "P d es s"
proof (induction es arbitrary: d s rule: length_induct)
  case (1 es d s)
  show ?case
  proof (cases es)
    case Nil
    then show ?thesis using assms(6) by simp
  next
    case (Cons e es1)
    show ?thesis
    proof (cases e)
      case (Connect a)
      show ?thesis
      proof (cases a)
        case Ok
        then show ?thesis using assms(1) Cons Connect by simp
      next
        case (Raise x)
        show ?thesis
        proof (cases "is_Exception x")
          case False
          then show ?thesis using assms(2) Cons Connect Raise by simp
        next
          case True
          show ?thesis
          proof (cases "\<exists>a es'. es1 = Sleep a # es'")
            case False
            then show ?thesis using assms(5) [OF True] Cons Connect Raise by simp
          next
            case True
            then obtain b es2 where es1: "es1 = Sleep b # es2" by blast
            show ?thesis
            proof (cases b)
              case Ok
              have "length es2 < length es" using Cons es1 by simp
              then have "P (fst (after_failure rng d s)) es2 (snd (after_failure rng d s))"
                using "1.IH" by blast
              then show ?thesis
                using assms(3) [OF \<open>is_Exception x\<close>] Cons Connect Raise es1 Ok by simp
            next
              case (Raise y)
              then show ?thesis
                using assms(4) [OF \<open>is_Exception x\<close>] Cons Connect \<open>a = Raise x\<close> es1 by simp
            qed
          qed
        qed
      qed
    qed (use assms(6) Cons in simp_all)
  qed
qed

lemmas reopen_eqs = reopen_loop_Ok reopen_loop_fatal reopen_loop_retry
  reopen_loop_sleep_raises reopen_loop_no_sleep reopen_loop_no_connect

declare reopen_loop.simps [simp del]

lemma reopen_loop_length:
  "reopen_loop rng d es s = (out, es', s') \<Longrightarrow> length es' \<le> length es"
  by (induction d es s rule: reopen_induct [where rng = rng]) (auto simp: reopen_eqs)

lemma reopenConnection_length:
  "reopenConnection rng es s = (out, es', s') \<Longrightarrow> length es' \<le> length es"
  unfolding reopenConnection_def by (rule reopen_loop_length)


subsection \<open>The dispatcher loop\<close>

text \<open>How \<open>run\<close> frames a dequeued item before sending it.\<close>

definition frame :: "ustr \<Rightarrow> ustr" where
  "frame data =
     (let multiline =
            (if \<not> is_unicode data then replace 0x0A LINE_SEP (create_unicode data)
             else replace 0x0A LINE_SEP data)
      in multiline @ NL)"

text \<open>The inner loop of \<open>run\<close>: send, reconnect if needed.  The text is encoded
  before each call of \<open>send\<close>.\<close>

function send_loop ::
  "(nat \<Rightarrow> rat) \<Rightarrow> ustr \<Rightarrow> event list \<Rightarrow> SocketAppender \<Rightarrow> outcome \<times> event list \<times> SocketAppender"
where
  "send_loop rng multiline es s =
     (case utf8_encode multiline of
        None \<Rightarrow> (Raised UnicodeEncodeError, es, s)
      | Some payload \<Rightarrow>
          (case es of
             Send Ok # es1 \<Rightarrow> (Normal, es1, s\<lparr>wire := wire s @ [payload]\<rparr>)
           | Send (Raise x) # es1 \<Rightarrow>
               if is_socket_error x then
                 (case reopenConnection rng es1 s of
                    (Normal, es2, s2) \<Rightarrow> send_loop rng multiline es2 s2
                  | r \<Rightarrow> r)
               else (Raised x, es1, s)
           | _ \<Rightarrow> (Pending, es, s)))"
  by pat_completeness auto
termination
  by (relation "measure (\<lambda>(rng, multiline, es, s). length es)")
     (auto dest: reopenConnection_length [OF sym] simp: less_Suc_eq_le)

text \<open>The outer loop of \<open>run\<close>: take an item from the queue, frame it, send it.\<close>

lemma send_loop_unencodable:
  "utf8_encode multiline = None \<Longrightarrow>
   send_loop rng multiline es s = (Raised UnicodeEncodeError, es, s)"
  by simp

lemma send_loop_Ok:
  "utf8_encode multiline = Some payload \<Longrightarrow>
   send_loop rng multiline (Send Ok # es) s = (Normal, es, s\<lparr>wire := wire s @ [payload]\<rparr>)"
  by simp

lemma send_loop_fatal:
  "utf8_encode multiline = Some payload \<Longrightarrow> \<not> is_socket_error x \<Longrightarrow>
   send_loop rng multiline (Send (Raise x) # es) s = (Raised x, es, s)"
  by simp

lemma send_loop_retry:
  "utf8_encode multiline = Some payload \<Longrightarrow> is_socket_error x \<Longrightarrow>
   reopenConnection rng es s = (Normal, es2, s2) \<Longrightarrow>
   send_loop rng multiline (Send (Raise x) # es) s = send_loop rng multiline es2 s2"
  by simp

lemma send_loop_reopen_fails:
  "utf8_encode multiline = Some payload \<Longrightarrow> is_socket_error x \<Longrightarrow>
   reopenConnection rng es s = (r, es2, s2) \<Longrightarrow> r \<noteq> Normal \<Longrightarrow>
   send_loop rng multiline (Send (Raise x) # es) s = (r, es2, s2)"
  by (cases r) simp_all

lemma send_loop_no_send:
  "utf8_encode multiline = Some payload \<Longrightarrow> \<forall>a es'. es \<noteq> Send a # es' \<Longrightarrow>
   send_loop rng multiline es s = (Pending, es, s)"
  by (auto split: list.splits event.splits answer.splits)

lemmas send_eqs = send_loop_unencodable send_loop_Ok send_loop_fatal send_loop_retry
  send_loop_reopen_fails send_loop_no_send

declare send_loop.simps [simp del]

lemma send_induct [case_names Sent Fatal Retry ReopenFails NoSend]:
  assumes "\<And>es s. P (Send Ok # es) s"
    and "\<And>x es s. \<not> is_socket_error x \<Longrightarrow> P (Send (Raise x) # es) s"
    and "\<And>x es s es2 s2. is_socket_error x \<Longrightarrow>
           reopenConnection rng es s = (Normal, es2, s2) \<Longrightarrow> P es2 s2 \<Longrightarrow>
           P (Send (Raise x) # es) s"
    and "\<And>x es s r es2 s2. is_socket_error x \<Longrightarrow>
           reopenConnection rng es s = (r, es2, s2) \<Longrightarrow> r \<noteq> Normal \<Longrightarrow>
           P (Send (Raise x) # es) s"
    and "\<And>es s. \<forall>a es'. es \<noteq> Send a # es' \<Longrightarrow> P es s"
  shows "P es s"
proof (induction es arbitrary: s rule: length_induct)
  case (1 es s)
  show ?case
  proof (cases "\<exists>a es1. es = Send a # es1")
    case False
    then show ?thesis using assms(5) by simp
  next
    case True
    then obtain a es1 where es: "es = Send a # es1" by blast
    show ?thesis
    proof (cases a)
      case Ok
      then show ?thesis using assms(1) es by simp
    next
      case (Raise x)
      show ?thesis
      proof (cases "is_socket_error x")
        case False
        then show ?thesis using assms(2) es Raise by simp
      next
        case True
        obtain r es2 s2 where re: "reopenConnection rng es1 s = (r, es2, s2)"
          by (cases "reopenConnection rng es1 s") auto
        show ?thesis
        proof (cases "r = Normal")
          case False
          then show ?thesis using assms(4) [OF True re] es Raise by simp
        next
          case Normal: True
          have "length es2 < length es"
            using reopenConnection_length [OF re] es by simp
          then have "P es2 s2" using "1.IH" by blast
          then show ?thesis using assms(3) [OF True] re Normal es Raise by simp
        qed
      qed
    qed
  qed
qed

lemma send_loop_length:
  assumes "send_loop rng multiline es s = (out, es', s')"
  shows "length es' \<le> length es"
proof (cases "utf8_encode multiline")
  case None
  then show ?thesis using assms by (simp add: send_eqs)
next
  case (Some payload)
  show ?thesis using assms
  proof (induction es s rule: send_induct [where rng = rng])
    case (Retry x es s es2 s2)
    then show ?case
      using reopenConnection_length [of rng es s Normal es2 s2] Some
      by (simp add: send_eqs)
  next
    case (ReopenFails x es s r es2 s2)
    then show ?case
      using reopenConnection_length [of rng es s r es2 s2] Some
      by (auto simp: send_eqs)
  qed (use Some in \<open>auto simp: send_eqs\<close>)
qed

function main_loop ::
  "(nat \<Rightarrow> rat) \<Rightarrow> event list \<Rightarrow> SocketAppender \<Rightarrow> outcome \<times> event list \<times> SocketAppender"
where
  "main_loop rng es s =
     (case es of
        Get Ok # es1 \<Rightarrow>
          (case queue_get (queue s) of
             None \<Rightarrow> (Blocked, es1, s)
           | Some (data, q) \<Rightarrow>
               (case send_loop rng (frame data) es1 (s\<lparr>queue := q\<rparr>) of
                  (Normal, es2, s2) \<Rightarrow> main_loop rng es2 s2
                | r \<Rightarrow> r))
      | Get (Raise x) # es1 \<Rightarrow> (Raised x, es1, s)
      | _ \<Rightarrow> (Pending, es, s))"
  by pat_completeness auto
termination
  by (relation "measure (\<lambda>(rng, es, s). length es)")
     (auto dest: send_loop_length [OF sym] simp: less_Suc_eq_le)

lemma main_loop_blocked:
  "queue_get (queue s) = None \<Longrightarrow> main_loop rng (Get Ok # es) s = (Blocked, es, s)"
  by simp

lemma main_loop_next:
  "queue_get (queue s) = Some (data, q) \<Longrightarrow>
   send_loop rng (frame data) es (s\<lparr>queue := q\<rparr>) = (Normal, es2, s2) \<Longrightarrow>
   main_loop rng (Get Ok # es) s = main_loop rng es2 s2"
  by simp

lemma main_loop_send_fails:
  "queue_get (queue s) = Some (data, q) \<Longrightarrow>
   send_loop rng (frame data) es (s\<lparr>queue := q\<rparr>) = (r, es2, s2) \<Longrightarrow> r \<noteq> Normal \<Longrightarrow>
   main_loop rng (Get Ok # es) s = (r, es2, s2)"
  by (cases r) simp_all

lemma main_loop_get_raises:
  "main_loop rng (Get (Raise x) # es) s = (Raised x, es, s)"
  by simp

lemma main_loop_no_get:
  "\<forall>a es'. es \<noteq> Get a # es' \<Longrightarrow> main_loop rng es s = (Pending, es, s)"
  by (auto split: list.splits event.splits answer.splits)

lemmas main_eqs = main_loop_blocked main_loop_next main_loop_send_fails
  main_loop_get_raises main_loop_no_get

declare main_loop.simps [simp del]

lemma main_induct [case_names Empty Next SendFails GetRaises NoGet]:
  assumes "\<And>es s. queue_get (queue s) = None \<Longrightarrow> P (Get Ok # es) s"
    and "\<And>es s data q es2 s2. queue_get (queue s) = Some (data, q) \<Longrightarrow>
           send_loop rng (frame data) es (s\<lparr>queue := q\<rparr>) = (Normal, es2, s2) \<Longrightarrow>
           P es2 s2 \<Longrightarrow> P (Get Ok # es) s"
    and "\<And>es s data q r es2 s2. queue_get (queue s) = Some (data, q) \<Longrightarrow>
           send_loop rng (frame data) es (s\<lparr>queue := q\<rparr>) = (r, es2, s2) \<Longrightarrow>
           r \<noteq> Normal \<Longrightarrow> P (Get Ok # es) s"
    and "\<And>x es s. P (Get (Raise x) # es) s"
    and "\<And>es s. \<forall>a es'. es \<noteq> Get a # es' \<Longrightarrow> P es s"
  shows "P es s"
proof (induction es arbitrary: s rule: length_induct)
  case (1 es s)
  show ?case
  proof (cases "\<exists>a es1. es = Get a # es1")
    case False
    then show ?thesis using assms(5) by simp
  next
    case True
    then obtain a es1 where es: "es = Get a # es1" by blast
    show ?thesis
    proof (cases a)
      case (Raise x)
      then show ?thesis using assms(4) es by simp
    next
      case Ok
      show ?thesis
      proof (cases "queue_get (queue s)")
        case None
        then show ?thesis using assms(1) es Ok by simp
      next
        case (Some dq)
        obtain data q where dq: "dq = (data, q)" by (cases dq) auto
        obtain r es2 s2 where
          sl: "send_loop rng (frame data) es1 (s\<lparr>queue := q\<rparr>) = (r, es2, s2)"
          by (cases "send_loop rng (frame data) es1 (s\<lparr>queue := q\<rparr>)") auto
        show ?thesis
        proof (cases "r = Normal")
          case False
          then show ?thesis using assms(3) [OF _ sl] Some dq es Ok by simp
        next
          case Normal: True
          have "length es2 < length es"
            using send_loop_length [OF sl] es by simp
          then have "P es2 s2" using "1.IH" by blast
          then show ?thesis using assms(2) [of s data q es1 es2 s2] sl Normal Some dq es Ok
            by simp
        qed
      qed
    qed
  qed
qed

text \<open>\<open>run\<close>: the body of the thread.  Only \<open>KeyboardInterrupt\<close> is caught; any
  other exception leaves \<open>run\<close> before \<open>closeConnection\<close>.\<close>

definition run ::
  "(nat \<Rightarrow> rat) \<Rightarrow> event list \<Rightarrow> SocketAppender \<Rightarrow> outcome \<times> event list \<times> SocketAppender"
where
  "run rng es s =
     (case (case reopenConnection rng es s of
              (Normal, es1, s1) \<Rightarrow> main_loop rng es1 s1
            | r \<Rightarrow> r) of
        (Raised x, es', s') \<Rightarrow>
          if x = KeyboardInterrupt then
            (Normal, es',
             closeConnection (dbg ''Logentries asynchronous socket client interrupted'' s'))
          else (Raised x, es', s')
      | (Normal, es', s') \<Rightarrow> (Normal, es', closeConnection s')
      | r \<Rightarrow> r)"

text \<open>\<open>threading.Thread\<close>: \<open>start\<close> raises \<open>RuntimeError\<close> (the value \<open>None\<close>) on a
  thread that was started before; a thread is alive from \<open>start\<close> until \<open>run\<close> ends.\<close>

definition is_alive :: "SocketAppender \<Rightarrow> bool" where
  "is_alive s = (tstate s = Alive)"

definition start :: "SocketAppender \<Rightarrow> SocketAppender option" where
  "start s = (if tstate s = Initial then Some (s\<lparr>tstate := Alive\<rparr>) else None)"


section \<open>LogentriesHandler\<close>

record LogentriesHandler =
  token :: ustr
  good_config :: bool
  thread :: SocketAppender

text \<open>The constructor; \<open>check_token\<close> is the validity check of the helpers module.
  The formatter and the level it sets play no part in what follows.\<close>

definition LogentriesHandler_init ::
  "(ustr \<Rightarrow> bool) \<Rightarrow> ustr \<Rightarrow> outcome \<times> LogentriesHandler"
where
  "LogentriesHandler_init check_token tok =
     (let out = (if \<not> check_token tok then [LE @ INVALID_TOKEN] else []);
          good = check_token tok;
          th = SocketAppender_init out;
          h = \<lparr>token = tok, good_config = good, thread = th\<rparr>
      in case queue_put (tok @ LIBRARY_IDENTIFIER @ NL) (queue th) of
           None \<Rightarrow> (Blocked, h)
         | Some q \<Rightarrow> (Normal, h\<lparr>thread := th\<lparr>queue := q\<rparr>\<rparr>))"

definition started :: "LogentriesHandler \<Rightarrow> bool" where
  "started h = is_alive (thread h)"

text \<open>\<open>emit\<close>; \<open>formatted\<close> is the text that \<open>self.format(record)\<close> returns.\<close>

definition emit :: "ustr \<Rightarrow> LogentriesHandler \<Rightarrow> outcome \<times> LogentriesHandler" where
  "emit formatted h =
     (case (if \<not> started h \<and> good_config h then
              (let th = dbg ''Starting Logentries Asynchronous Socket Appender'' (thread h)
               in case start th of
                    None \<Rightarrow> (Raised RuntimeError, h\<lparr>thread := th\<rparr>)
                  | Some th' \<Rightarrow> (Normal, h\<lparr>thread := th'\<rparr>))
            else (Normal, h)) of
        (Normal, h1) \<Rightarrow>
          (let msg = rstrip_nl formatted;
               msg = token h1 @ msg
           in case queue_put msg (queue (thread h1)) of
                None \<Rightarrow> (Blocked, h1)
              | Some q \<Rightarrow> (Normal, h1\<lparr>thread := (thread h1)\<lparr>queue := q\<rparr>\<rparr>))
      | r \<Rightarrow> r)"


section \<open>Producers and the dispatcher together\<close>

text \<open>A producer that submits one text after the other; it stops at the first
  submission that does not return.\<close>

fun submit_all :: "ustr list \<Rightarrow> LogentriesHandler \<Rightarrow> outcome \<times> LogentriesHandler" where
  "submit_all [] h = (Normal, h)"
| "submit_all (t # ts) h =
     (case emit t h of (Normal, h1) \<Rightarrow> submit_all ts h1 | r \<Rightarrow> r)"

text \<open>The thread of the handler runs \<open>run\<close> against a script, if it was started; when
  \<open>run\<close> ends, by a return or by an exception, the thread is no longer alive.\<close>

definition dispatch :: "(nat \<Rightarrow> rat) \<Rightarrow> event list \<Rightarrow> LogentriesHandler \<Rightarrow> LogentriesHandler" where
  "dispatch rng es h =
     (if is_alive (thread h) then
        (case run rng es (thread h) of
           (Pending, es', s') \<Rightarrow> h\<lparr>thread := s'\<rparr>
         | (Blocked, es', s') \<Rightarrow> h\<lparr>thread := s'\<rparr>
         | (r, es', s') \<Rightarrow> h\<lparr>thread := s'\<lparr>tstate := Stopped\<rparr>\<rparr>)
      else h)"


section \<open>Facts about the handler\<close>

text \<open>The line that \<open>emit\<close> prints before it starts the thread.\<close>

definition starting_line :: string where
  "starting_line = LE @ ''Starting Logentries Asynchronous Socket Appender''"

lemma emit_no_start:
  "started h \<or> \<not> good_config h \<Longrightarrow>
   emit t h =
     (case queue_put (token h @ rstrip_nl t) (queue (thread h)) of
        None \<Rightarrow> (Blocked, h)
      | Some q \<Rightarrow> (Normal, h\<lparr>thread := (thread h)\<lparr>queue := q\<rparr>\<rparr>))"
  by (auto simp: emit_def Let_def)

lemma emit_first:
  "tstate (thread h) = Initial \<Longrightarrow> good_config h \<Longrightarrow>
   emit t h =
     (case queue_put (token h @ rstrip_nl t) (queue (thread h)) of
        None \<Rightarrow>
          (Blocked,
           h\<lparr>thread := (thread h)\<lparr>printed := printed (thread h) @ [starting_line],
                                  tstate := Alive\<rparr>\<rparr>)
      | Some q \<Rightarrow>
          (Normal,
           h\<lparr>thread := (thread h)\<lparr>printed := printed (thread h) @ [starting_line],
                                  tstate := Alive, queue := q\<rparr>\<rparr>))"
  by (auto simp: emit_def Let_def started_def is_alive_def start_def dbg_def starting_line_def
      split: option.splits)

lemma emit_stopped:
  "tstate (thread h) = Stopped \<Longrightarrow> good_config h \<Longrightarrow>
   emit t h =
     (Raised RuntimeError,
      h\<lparr>thread := (thread h)\<lparr>printed := printed (thread h) @ [starting_line]\<rparr>\<rparr>)"
  by (auto simp: emit_def Let_def started_def is_alive_def start_def dbg_def starting_line_def)

lemma init_eq:
  "LogentriesHandler_init check_token tok =
     (Normal,
      \<lparr>token = tok, good_config = check_token tok,
       thread = \<lparr>conn = None,
                 queue = \<lparr>maxsize = QUEUE_SIZE, items = [tok @ LIBRARY_IDENTIFIER @ NL]\<rparr>,
                 tstate = Initial, wire = [], sleeps = [], draws = 0,
                 printed = (if check_token tok then [] else [LE @ INVALID_TOKEN])\<rparr>\<rparr>)"
  by (simp add: LogentriesHandler_init_def SocketAppender_init_def create_queue_def
      queue_put_def QUEUE_SIZE_def)

text \<open>What a submission that returns leaves in the handler.\<close>

lemma emit_Normal:
  assumes "emit t h = (Normal, h')"
  shows "items (queue (thread h')) = items (queue (thread h)) @ [token h @ rstrip_nl t]"
    and "maxsize (queue (thread h')) = maxsize (queue (thread h))"
    and "token h' = token h" and "good_config h' = good_config h"
    and "length (items (queue (thread h))) < maxsize (queue (thread h))"
  using assms
  by (auto simp: emit_def Let_def start_def dbg_def queue_put_def
      split: if_splits option.splits)

text \<open>The handler after the texts \<open>ts\<close> were enqueued, and the free places of its queue.\<close>

definition enqueue_all :: "ustr list \<Rightarrow> LogentriesHandler \<Rightarrow> LogentriesHandler" where
  "enqueue_all ts h =
     h\<lparr>thread := (thread h)\<lparr>queue := (queue (thread h))
        \<lparr>items := items (queue (thread h)) @ map (\<lambda>t. token h @ rstrip_nl t) ts\<rparr>\<rparr>\<rparr>"

definition room :: "LogentriesHandler \<Rightarrow> nat" where
  "room h = maxsize (queue (thread h)) - length (items (queue (thread h)))"

lemma enqueue_all_Nil [simp]: "enqueue_all [] h = h"
  by (simp add: enqueue_all_def)

lemma submit_all_no_start:
  "started h \<or> \<not> good_config h \<Longrightarrow>
   submit_all ts h =
     (if length ts \<le> room h then Normal else Blocked, enqueue_all (take (room h) ts) h)"
proof (induction ts arbitrary: h)
  case Nil
  then show ?case by simp
next
  case (Cons t ts)
  show ?case
  proof (cases "room h")
    case 0
    then have "queue_put (token h @ rstrip_nl t) (queue (thread h)) = None"
      by (simp add: room_def queue_put_def)
    with Cons.prems 0 show ?thesis by (simp add: emit_no_start)
  next
    case (Suc n)
    let ?h1 = "enqueue_all [t] h"
    have put: "queue_put (token h @ rstrip_nl t) (queue (thread h)) =
        Some ((queue (thread h))\<lparr>items := items (queue (thread h)) @ [token h @ rstrip_nl t]\<rparr>)"
      using Suc by (simp add: room_def queue_put_def)
    have e: "emit t h = (Normal, ?h1)"
      using Cons.prems put by (simp add: emit_no_start enqueue_all_def)
    have h1: "started ?h1 \<or> \<not> good_config ?h1"
      using Cons.prems by (simp add: enqueue_all_def started_def is_alive_def)
    have r: "room ?h1 = n" using Suc by (simp add: room_def enqueue_all_def)
    have "enqueue_all (take n ts) ?h1 = enqueue_all (t # take n ts) h"
      by (simp add: enqueue_all_def)
    with Cons.IH [OF h1] e r Suc show ?thesis by simp
  qed
qed


section \<open>Concrete inputs\<close>

text \<open>Two validity checks, a token of the shape the service hands out, and the handler
  constructed from it.\<close>

definition accept_any :: "ustr \<Rightarrow> bool" where
  "accept_any tok = True"

definition reject_any :: "ustr \<Rightarrow> bool" where
  "reject_any tok = False"

definition demo_token :: ustr where
  "demo_token = ascii ''2bfbea1e-10c3-4419-bdad-7e6435882e1f''"

lemma rstrip_nl_decomp: "\<exists>n. s = rstrip_nl s @ replicate n 0x0A"
proof -
  have "rev s = takeWhile (\<lambda>c. c = 0x0A) (rev s) @ dropWhile (\<lambda>c. c = 0x0A) (rev s)"
    by simp
  then have "s = rstrip_nl s @ rev (takeWhile (\<lambda>c. c = 0x0A) (rev s))"
    unfolding rstrip_nl_def by (metis rev_append rev_rev_ident)
  moreover have "rev (takeWhile (\<lambda>c. c = 0x0A) (rev s)) =
      replicate (length (takeWhile (\<lambda>c. c = 0x0A) (rev s))) 0x0A"
    by (rule replicate_eqI) (auto dest: set_takeWhileD)
  ultimately show ?thesis by metis
qed

lemma rstrip_nl_last: "rstrip_nl s = [] \<or> last (rstrip_nl s) \<noteq> 0x0A"
proof (cases "dropWhile (\<lambda>c. c = 0x0A) (rev s)")
  case Nil
  then show ?thesis by (simp add: rstrip_nl_def)
next
  case (Cons c cs)
  then have "c \<noteq> 0x0A" using hd_dropWhile [of "\<lambda>c. c = 0x0A" "rev s"] by auto
  with Cons show ?thesis by (simp add: rstrip_nl_def)
qed

section \<open>Submission\<close>

text \<open>
  Claim C7, as amended.  A submission that returns has appended one string to the queue:
  the token followed by the formatted text without its trailing newlines.  (The formatted
  text is that string followed by some number of newlines, and the string does not end
  in a newline.)
\<close>

theorem emit_enqueues:
  assumes "emit formatted h = (Normal, h')"
  shows "items (queue (thread h')) = items (queue (thread h)) @ [token h @ rstrip_nl formatted]
    \<and> (\<exists>n. formatted = rstrip_nl formatted @ replicate n 0x0A)
    \<and> (rstrip_nl formatted = [] \<or> last (rstrip_nl formatted) \<noteq> 0x0A)"
  using emit_Normal(1) [OF assms] rstrip_nl_decomp [of formatted] rstrip_nl_last [of formatted]
  by blast

definition demo_handler :: LogentriesHandler where
  "demo_handler = snd (LogentriesHandler_init accept_any demo_token)"

lemma demo_handler_facts:
  "tstate (thread demo_handler) = Initial" "good_config demo_handler"
  "token demo_handler = demo_token"
  "queue (thread demo_handler) =
     \<lparr>maxsize = QUEUE_SIZE, items = [demo_token @ LIBRARY_IDENTIFIER @ NL]\<rparr>"
  by (simp_all add: demo_handler_def init_eq accept_any_def)

theorem emit_enqueues_witness:
  "fst (emit [0x61, 0x0A, 0x0A] demo_handler) = Normal \<and>
   items (queue (thread (snd (emit [0x61, 0x0A, 0x0A] demo_handler)))) =
     [demo_token @ LIBRARY_IDENTIFIER @ NL, demo_token @ [0x61]]"
proof -
  have r: "rstrip_nl [0x61, 0x0A, 0x0A] = [0x61]" by (simp add: rstrip_nl_def)
  obtain h' where e: "emit [0x61, 0x0A, 0x0A] demo_handler = (Normal, h')"
    by (simp add: emit_first demo_handler_facts queue_put_def QUEUE_SIZE_def)
  from emit_enqueues [OF e] show ?thesis
    using e by (simp add: r demo_handler_facts)
qed

text \<open>Claim C7 as stated fails on a formatted text that ends in a newline: the queue
  does not receive the token followed by that text.\<close>

theorem emit_keeps_newline_counterexample:
  "fst (emit [0x61, 0x0A] demo_handler) = Normal \<and>
   items (queue (thread (snd (emit [0x61, 0x0A] demo_handler)))) \<noteq>
     items (queue (thread demo_handler)) @ [token demo_handler @ [0x61, 0x0A]]"
proof -
  have r: "rstrip_nl [0x61, 0x0A] = [0x61]" by (simp add: rstrip_nl_def)
  show ?thesis
    by (simp add: emit_first demo_handler_facts queue_put_def QUEUE_SIZE_def r)
qed


section \<open>Starting the thread\<close>

lemma emit_alive:
  assumes "started h" and "emit t h = (out, h')"
  shows "started h' \<and> printed (thread h') = printed (thread h) \<and> (out = Normal \<or> out = Blocked)"
  using assms
  by (auto simp: emit_no_start started_def is_alive_def split: option.splits)

lemma submit_all_alive:
  assumes "started h" and "submit_all ts h = (out, h')"
  shows "started h' \<and> printed (thread h') = printed (thread h) \<and> (out = Normal \<or> out = Blocked)"
  using assms
  by (auto simp: submit_all_no_start enqueue_all_def started_def is_alive_def split: if_splits)

text \<open>
  Claim C6.  With a credential that passes the check, the thread is not started at
  construction; the first submission starts it, and after any number of submissions it
  is alive and the line that precedes \<open>start\<close> was printed once.  A submission to a
  handler whose thread is alive prints nothing and leaves the thread alive.
\<close>

theorem thread_started_once_on_first_submission:
  assumes "check_token tok"
    and "LogentriesHandler_init check_token tok = (r0, h0)"
    and "emit t h0 = (r1, h1)"
    and "submit_all (t # ts) h0 = (out, h)"
    and "started g" and "emit u g = (out', g')"
  shows "r0 = Normal \<and> tstate (thread h0) = Initial \<and> \<not> started h0 \<and> printed (thread h0) = []
    \<and> r1 = Normal \<and> started h1 \<and> printed (thread h1) = [starting_line]
    \<and> started h \<and> printed (thread h) = [starting_line]
    \<and> started g' \<and> printed (thread g') = printed (thread g)"
proof -
  have h0: "r0 = Normal" "tstate (thread h0) = Initial" "good_config h0"
    "printed (thread h0) = []"
    "queue (thread h0) = \<lparr>maxsize = QUEUE_SIZE, items = [tok @ LIBRARY_IDENTIFIER @ NL]\<rparr>"
    using assms(1,2) by (auto simp: init_eq)
  have e: "r1 = Normal \<and> started h1 \<and> printed (thread h1) = [starting_line]"
    using assms(3) h0
    by (auto simp: emit_first queue_put_def QUEUE_SIZE_def started_def is_alive_def)
  have s: "submit_all ts h1 = (out, h)"
    using assms(3,4) e by simp
  have "started h \<and> printed (thread h) = [starting_line]"
    using submit_all_alive [OF _ s] e by simp
  moreover have "started g' \<and> printed (thread g') = printed (thread g)"
    using emit_alive [OF assms(5,6)] by simp
  moreover have "\<not> started h0" using h0 by (simp add: started_def is_alive_def)
  ultimately show ?thesis using h0 e by simp
qed

theorem thread_started_once_on_first_submission_witness:
  "accept_any demo_token
   \<and> \<not> started demo_handler
   \<and> started (snd (emit [0x61] demo_handler))
   \<and> printed (thread (snd (submit_all [[0x61], [0x62], [0x63]] demo_handler))) = [starting_line]
   \<and> printed (thread (snd (emit [0x64] (snd (emit [0x61] demo_handler))))) = [starting_line]"
proof -
  have a: "accept_any demo_token" by (simp add: accept_any_def)
  obtain r0 where i: "LogentriesHandler_init accept_any demo_token = (r0, demo_handler)"
    by (simp add: demo_handler_def init_eq)
  obtain r1 h1 where e: "emit [0x61] demo_handler = (r1, h1)"
    by (cases "emit [0x61] demo_handler") auto
  obtain out h where s: "submit_all [[0x61], [0x62], [0x63]] demo_handler = (out, h)"
    by (cases "submit_all [[0x61], [0x62], [0x63]] demo_handler") auto
  obtain out' g' where u: "emit [0x64] h1 = (out', g')"
    by (cases "emit [0x64] h1") auto
  have g: "started h1"
    using e
    by (auto simp: emit_first demo_handler_facts queue_put_def QUEUE_SIZE_def started_def
        is_alive_def)
  from thread_started_once_on_first_submission [OF a i e s g u] show ?thesis
    using a e s u by simp
qed


section \<open>A credential that fails the check\<close>

lemma dispatch_not_alive: "\<not> started h \<Longrightarrow> dispatch rng es h = h"
  by (simp add: dispatch_def started_def)

lemma submit_all_invalid:
  assumes "\<not> check_token tok"
    and "LogentriesHandler_init check_token tok = (r0, h0)"
    and "submit_all ts h0 = (out, h)"
  shows "r0 = Normal" and "printed (thread h0) = [LE @ INVALID_TOKEN]"
    and "room h0 = QUEUE_SIZE - 1"
    and "out = (if length ts < QUEUE_SIZE then Normal else Blocked)"
    and "h = enqueue_all (take (QUEUE_SIZE - 1) ts) h0"
    and "token h0 = tok" and "\<not> good_config h0" and "tstate (thread h0) = Initial"
    and "items (queue (thread h0)) = [tok @ LIBRARY_IDENTIFIER @ NL]"
    and "maxsize (queue (thread h0)) = QUEUE_SIZE" and "wire (thread h0) = []"
proof -
  show h0: "r0 = Normal" "printed (thread h0) = [LE @ INVALID_TOKEN]" "token h0 = tok"
    "\<not> good_config h0" "tstate (thread h0) = Initial"
    "items (queue (thread h0)) = [tok @ LIBRARY_IDENTIFIER @ NL]"
    "maxsize (queue (thread h0)) = QUEUE_SIZE" "wire (thread h0) = []"
    using assms(1,2) by (auto simp: init_eq)
  show r: "room h0 = QUEUE_SIZE - 1" using h0 by (simp add: room_def)
  have "submit_all ts h0 =
      (if length ts \<le> room h0 then Normal else Blocked, enqueue_all (take (room h0) ts) h0)"
    using h0 by (simp add: submit_all_no_start)
  with assms(3) r show "out = (if length ts < QUEUE_SIZE then Normal else Blocked)"
    and "h = enqueue_all (take (QUEUE_SIZE - 1) ts) h0"
    by (auto simp: QUEUE_SIZE_def)
qed

text \<open>
  Claim C4, as amended.  With a credential that fails the check, one diagnostic is
  printed, at construction; whatever is submitted, the thread is never started, nothing
  is sent, and no submission raises.  As long as fewer than \<open>QUEUE_SIZE\<close> texts were
  submitted, every one of them is in the queue, behind the priming message.
\<close>

theorem invalid_credential_never_starts:
  assumes "\<not> check_token tok"
    and "LogentriesHandler_init check_token tok = (r0, h0)"
    and "submit_all ts h0 = (out, h)"
  shows "r0 = Normal \<and> printed (thread h0) = [LE @ INVALID_TOKEN]
    \<and> \<not> started h \<and> tstate (thread h) = Initial
    \<and> printed (thread h) = [LE @ INVALID_TOKEN] \<and> wire (thread h) = []
    \<and> (\<forall>rng es. dispatch rng es h = h)
    \<and> (out = Normal \<or> out = Blocked)
    \<and> (length ts < QUEUE_SIZE \<longrightarrow>
         out = Normal \<and>
         items (queue (thread h)) =
           (tok @ LIBRARY_IDENTIFIER @ NL) # map (\<lambda>t. tok @ rstrip_nl t) ts)"
proof -
  note f = submit_all_invalid [OF assms]
  have ns: "\<not> started h"
    using f by (simp add: enqueue_all_def started_def is_alive_def)
  then have "\<forall>rng es. dispatch rng es h = h"
    by (simp add: dispatch_not_alive)
  moreover have "length ts < QUEUE_SIZE \<Longrightarrow> take (QUEUE_SIZE - 1) ts = ts"
    by simp
  ultimately show ?thesis
    using f ns by (auto simp: enqueue_all_def)
qed

theorem invalid_credential_never_starts_witness:
  "\<not> reject_any demo_token
   \<and> fst (submit_all [[0x61], [0x62, 0x0A]] (snd (LogentriesHandler_init reject_any demo_token)))
       = Normal
   \<and> items (queue (thread
        (snd (submit_all [[0x61], [0x62, 0x0A]]
           (snd (LogentriesHandler_init reject_any demo_token)))))) =
      [demo_token @ LIBRARY_IDENTIFIER @ NL, demo_token @ [0x61], demo_token @ [0x62]]
   \<and> printed (thread
        (snd (submit_all [[0x61], [0x62, 0x0A]]
           (snd (LogentriesHandler_init reject_any demo_token))))) = [LE @ INVALID_TOKEN]"
proof -
  have a: "\<not> reject_any demo_token" by (simp add: reject_any_def)
  obtain r0 h0 where i: "LogentriesHandler_init reject_any demo_token = (r0, h0)"
    by (cases "LogentriesHandler_init reject_any demo_token") auto
  obtain out h where s: "submit_all [[0x61], [0x62, 0x0A]] h0 = (out, h)"
    by (cases "submit_all [[0x61], [0x62, 0x0A]] h0") auto
  have r: "rstrip_nl [0x61] = [0x61]" "rstrip_nl [0x62, 0x0A] = [0x62]"
    by (simp_all add: rstrip_nl_def)
  from invalid_credential_never_starts [OF a i s] show ?thesis
    using a i s by (simp add: r QUEUE_SIZE_def)
qed

text \<open>Claim C4 as stated fails: with a credential that fails the check, the 32768th
  submission is not accepted into the queue; the call blocks, and the queue holds the
  priming message and the 32767 texts before it.\<close>

theorem invalid_credential_submission_blocks_counterexample:
  "fst (submit_all (replicate 32768 [0x61])
          (snd (LogentriesHandler_init reject_any demo_token))) = Blocked
   \<and> length (items (queue (thread
        (snd (submit_all (replicate 32768 [0x61])
           (snd (LogentriesHandler_init reject_any demo_token))))))) = 32768"
proof -
  have a: "\<not> reject_any demo_token" by (simp add: reject_any_def)
  obtain r0 h0 where i: "LogentriesHandler_init reject_any demo_token = (r0, h0)"
    by (cases "LogentriesHandler_init reject_any demo_token") auto
  obtain out h where s: "submit_all (replicate 32768 [0x61]) h0 = (out, h)"
    by (cases "submit_all (replicate 32768 [0x61]) h0") auto
  note f = submit_all_invalid [OF a i s]
  have "out = Blocked" using f(4) by (simp add: QUEUE_SIZE_def)
  moreover have "length (items (queue (thread h))) = 32768"
    unfolding f(5) using f(9) by (simp add: enqueue_all_def QUEUE_SIZE_def)
  ultimately show ?thesis using i s by simp
qed

text \<open>
  Claim C10.  With a credential that fails the check, the queue has 32768 places, of
  which the priming message takes one.  After 32767 submissions, all accepted, the queue
  is full; the thread was not started and no run of the dispatcher changes anything, so
  the next submission blocks, and blocks again whenever it is tried.
\<close>

theorem invalid_credential_queue_fills:
  assumes "\<not> check_token tok"
    and "LogentriesHandler_init check_token tok = (r0, h0)"
    and "length ts = 32767"
    and "submit_all ts h0 = (out, h)"
  shows "maxsize (queue (thread h0)) = 32768 \<and> length (items (queue (thread h0))) = 1
    \<and> out = Normal \<and> length (items (queue (thread h))) = 32768
    \<and> maxsize (queue (thread h)) = 32768
    \<and> \<not> started h \<and> (\<forall>rng es. dispatch rng es h = h)
    \<and> (\<forall>t. emit t h = (Blocked, h))"
proof -
  note f = submit_all_invalid [OF assms(1,2,4)]
  have h: "h = enqueue_all ts h0" using f(5) assms(3) by (simp add: QUEUE_SIZE_def)
  have ns: "\<not> started h" "\<not> good_config h"
    using f h by (simp_all add: enqueue_all_def started_def is_alive_def)
  have len: "length (items (queue (thread h))) = 32768" "maxsize (queue (thread h)) = 32768"
    using f h assms(3) by (simp_all add: enqueue_all_def QUEUE_SIZE_def)
  have "emit t h = (Blocked, h)" for t
    using ns len by (simp add: emit_no_start queue_put_def)
  moreover have "out = Normal" using f(4) assms(3) by (simp add: QUEUE_SIZE_def)
  ultimately show ?thesis
    using f ns len by (simp add: dispatch_not_alive QUEUE_SIZE_def)
qed

theorem invalid_credential_queue_fills_witness:
  "\<not> reject_any demo_token \<and> length (replicate 32767 [0x62::nat]) = 32767
   \<and> fst (submit_all (replicate 32767 [0x62])
            (snd (LogentriesHandler_init reject_any demo_token))) = Normal
   \<and> fst (emit [0x63]
        (snd (submit_all (replicate 32767 [0x62])
           (snd (LogentriesHandler_init reject_any demo_token))))) = Blocked"
proof -
  have a: "\<not> reject_any demo_token" by (simp add: reject_any_def)
  obtain r0 h0 where i: "LogentriesHandler_init reject_any demo_token = (r0, h0)"
    by (cases "LogentriesHandler_init reject_any demo_token") auto
  have l: "length (replicate 32767 [0x62::nat]) = 32767" by simp
  obtain out h where s: "submit_all (replicate 32767 [0x62]) h0 = (out, h)"
    by (cases "submit_all (replicate 32767 [0x62]) h0") auto
  from invalid_credential_queue_fills [OF a i l s] show ?thesis
    using a i s by simp
qed


section \<open>Facts about the dispatcher\<close>

text \<open>An event that delivers \<open>KeyboardInterrupt\<close> to the call it answers.\<close>

definition interrupt :: "event \<Rightarrow> bool" where
  "interrupt e =
     (e = Connect (Raise KeyboardInterrupt) \<or> e = Sleep (Raise KeyboardInterrupt) \<or>
      e = Get (Raise KeyboardInterrupt) \<or> e = Send (Raise KeyboardInterrupt))"

text \<open>An event that is a success or a transient failure: a \<open>connect\<close> that
  raises an exception which \<open>reopenConnection\<close> catches, a \<open>send\<close> that raises a
  socket error; \<open>sleep\<close> and \<open>get\<close> return.\<close>

definition transient :: "event \<Rightarrow> bool" where
  "transient e =
     (case e of
        Connect a \<Rightarrow> (case a of Ok \<Rightarrow> True | Raise x \<Rightarrow> is_Exception x)
      | Send a \<Rightarrow> (case a of Ok \<Rightarrow> True | Raise x \<Rightarrow> is_socket_error x)
      | Sleep a \<Rightarrow> a = Ok
      | Get a \<Rightarrow> a = Ok)"

text \<open>The bytes that \<open>run\<close> hands to \<open>send\<close> for a queued item.\<close>

definition payload :: "ustr \<Rightarrow> byte list option" where
  "payload data = utf8_encode (frame data)"

lemma after_failure_fields [simp]:
  "wire (snd (after_failure rng d s)) = wire s"
  "queue (snd (after_failure rng d s)) = queue s"
  "tstate (snd (after_failure rng d s)) = tstate s"
  "conn (snd (after_failure rng d s)) = Some Unconnected"
  by (simp_all add: after_failure_def backoff_def dbg_def Let_def)

lemma interrupt_simps [simp]:
  "interrupt (Connect a) = (a = Raise KeyboardInterrupt)"
  "interrupt (Sleep a) = (a = Raise KeyboardInterrupt)"
  "interrupt (Get a) = (a = Raise KeyboardInterrupt)"
  "interrupt (Send a) = (a = Raise KeyboardInterrupt)"
  by (auto simp: interrupt_def)

lemma transient_simps [simp]:
  "transient (Connect Ok)" "transient (Connect (Raise x)) = is_Exception x"
  "transient (Send Ok)" "transient (Send (Raise x)) = is_socket_error x"
  "transient (Sleep a) = (a = Ok)" "transient (Get a) = (a = Ok)"
  by (simp_all add: transient_def)

definition interrupted :: "event list \<Rightarrow> bool" where
  "interrupted used = (\<exists>e\<in>set used. interrupt e)"

lemma interrupted_simps [simp]:
  "interrupted [] = False"
  "interrupted (e # es) = (interrupt e \<or> interrupted es)"
  "interrupted (es @ es2) = (interrupted es \<or> interrupted es2)"
  by (auto simp: interrupted_def)

text \<open>The events that a call consumed end with an interrupt, which is the only one
  among them, exactly when the call raises \<open>KeyboardInterrupt\<close>.\<close>

definition stops_at_interrupt :: "event list \<Rightarrow> outcome \<Rightarrow> bool" where
  "stops_at_interrupt used out =
     (if out = Raised KeyboardInterrupt
      then used \<noteq> [] \<and> interrupt (last used) \<and> \<not> interrupted (butlast used)
      else \<not> interrupted used)"

lemma stops_at_interrupt_Nil [simp]:
  "stops_at_interrupt [] out = (out \<noteq> Raised KeyboardInterrupt)"
  by (simp add: stops_at_interrupt_def)

lemma stops_at_interrupt_single [simp]:
  "stops_at_interrupt [e] out = (interrupt e \<longleftrightarrow> out = Raised KeyboardInterrupt)"
  by (simp add: stops_at_interrupt_def)

lemma stops_at_interrupt_append:
  "\<not> interrupted u1 \<Longrightarrow> stops_at_interrupt u2 out \<Longrightarrow> stops_at_interrupt (u1 @ u2) out"
  by (cases "u2 = []") (auto simp: stops_at_interrupt_def butlast_append)

lemma stops_at_interrupt_iff:
  "stops_at_interrupt used out \<Longrightarrow> interrupted used \<longleftrightarrow> out = Raised KeyboardInterrupt"
  using last_in_set [of used]
  by (auto simp: stops_at_interrupt_def interrupted_def split: if_splits)

lemma stops_at_interrupt_Cons:
  "\<not> interrupt e \<Longrightarrow> stops_at_interrupt used out \<Longrightarrow> stops_at_interrupt (e # used) out"
  using stops_at_interrupt_append [of "[e]" used out] by simp

lemma reopen_loop_control:
  assumes "reopen_loop rng d es s = (out, es', s')"
  shows "\<exists>used. es = used @ es' \<and> stops_at_interrupt used out
     \<and> out \<noteq> Blocked
     \<and> (used \<noteq> [] \<longrightarrow> conn s' \<noteq> None) \<and> (conn s \<noteq> None \<longrightarrow> conn s' \<noteq> None)
     \<and> (out = Normal \<longrightarrow> conn s' = Some Connected)"
  using assms
proof (induction d es s rule: reopen_induct [where rng = rng])
  case (Connected d es s)
  then show ?case
    by (intro exI [of _ "[Connect Ok]"]) (auto simp: reopen_eqs)
next
  case (Fatal d x es s)
  then show ?case
    by (intro exI [of _ "[Connect (Raise x)]"]) (auto simp: reopen_eqs is_Exception_def)
next
  case (Retry d x es s)
  then obtain used where u: "es = used @ es'" "stops_at_interrupt used out" "out \<noteq> Blocked"
    "out = Normal \<longrightarrow> conn s' = Some Connected" "conn s' \<noteq> None"
    by (auto simp: reopen_eqs)
  have "stops_at_interrupt (Connect (Raise x) # Sleep Ok # used) out"
    using Retry(1) u(2) by (auto intro!: stops_at_interrupt_Cons simp: is_Exception_def)
  with u show ?case
    by (intro exI [of _ "Connect (Raise x) # Sleep Ok # used"]) auto
next
  case (SleepRaises d x y es s)
  have "stops_at_interrupt [Connect (Raise x), Sleep (Raise y)] (Raised y)"
    using SleepRaises(1) by (rule_tac stops_at_interrupt_Cons) (simp_all add: is_Exception_def)
  with SleepRaises show ?case
    by (intro exI [of _ "[Connect (Raise x), Sleep (Raise y)]"]) (auto simp: reopen_eqs)
next
  case (NoSleep d x es s)
  then show ?case
    by (intro exI [of _ "[Connect (Raise x)]"]) (auto simp: reopen_eqs is_Exception_def)
next
  case (NoConnect d es s)
  then show ?case
    by (intro exI [of _ "[]"]) (auto simp: reopen_eqs)
qed

lemma reopen_loop_frame:
  "reopen_loop rng d es s = (out, es', s') \<Longrightarrow>
   wire s' = wire s \<and> queue s' = queue s \<and> tstate s' = tstate s"
  by (induction d es s rule: reopen_induct [where rng = rng]) (auto simp: reopen_eqs)

lemma reopen_loop_transient:
  "reopen_loop rng d es s = (out, es', s') \<Longrightarrow> \<forall>e\<in>set es. transient e \<Longrightarrow>
   (out = Normal \<or> out = Pending) \<and> (\<forall>e\<in>set es'. transient e)"
  by (induction d es s rule: reopen_induct [where rng = rng]) (auto simp: reopen_eqs)

lemma closeConnection_fields [simp]:
  "wire (closeConnection s) = wire s" "queue (closeConnection s) = queue s"
  "tstate (closeConnection s) = tstate s" "printed (closeConnection s) = printed s"
  "sleeps (closeConnection s) = sleeps s" "draws (closeConnection s) = draws s"
  "conn (closeConnection s) = (if conn s = None then None else Some Closed)"
  by (simp_all add: closeConnection_def)

lemma reopenConnection_control:
  assumes "reopenConnection rng es s = (out, es', s')"
  shows "\<exists>used. es = used @ es' \<and> stops_at_interrupt used out
     \<and> out \<noteq> Blocked
     \<and> (used \<noteq> [] \<longrightarrow> conn s' \<noteq> None) \<and> (conn s \<noteq> None \<longrightarrow> conn s' \<noteq> None)
     \<and> (out = Normal \<longrightarrow> conn s' = Some Connected)"
  using reopen_loop_control [OF assms [unfolded reopenConnection_def]] by auto

lemma reopenConnection_frame:
  "reopenConnection rng es s = (out, es', s') \<Longrightarrow>
   wire s' = wire s \<and> queue s' = queue s \<and> tstate s' = tstate s"
  unfolding reopenConnection_def by (drule reopen_loop_frame) simp

lemma reopenConnection_transient:
  "reopenConnection rng es s = (out, es', s') \<Longrightarrow> \<forall>e\<in>set es. transient e \<Longrightarrow>
   (out = Normal \<or> out = Pending) \<and> (\<forall>e\<in>set es'. transient e)"
  unfolding reopenConnection_def by (rule reopen_loop_transient)

subsection \<open>The send loop\<close>

lemma send_loop_control:
  assumes "send_loop rng ml es s = (out, es', s')"
  shows "\<exists>used. es = used @ es' \<and> stops_at_interrupt used out
     \<and> out \<noteq> Blocked \<and> (conn s \<noteq> None \<longrightarrow> conn s' \<noteq> None)"
proof (cases "utf8_encode ml")
  case None
  with assms show ?thesis by (intro exI [of _ "[]"]) (auto simp: send_eqs)
next
  case (Some p)
  show ?thesis using assms
  proof (induction es s rule: send_induct [where rng = rng])
    case (Sent es s)
    then show ?case using Some by (intro exI [of _ "[Send Ok]"]) (auto simp: send_eqs)
  next
    case (Fatal x es s)
    then show ?case using Some
      by (intro exI [of _ "[Send (Raise x)]"]) (auto simp: send_eqs)
  next
    case (Retry x es s es2 s2)
    from reopenConnection_control [OF Retry(2)] obtain u1 where
      u1: "es = u1 @ es2" "\<not> interrupted u1" "conn s2 = Some Connected"
      by (auto dest: stops_at_interrupt_iff)
    from Retry obtain u2 where
      u2: "es2 = u2 @ es'" "stops_at_interrupt u2 out" "out \<noteq> Blocked" "conn s' \<noteq> None"
      using Some u1 by (auto simp: send_eqs)
    have "stops_at_interrupt (Send (Raise x) # u1 @ u2) out"
      using Retry(1) u1(2) u2(2)
      by (auto intro!: stops_at_interrupt_Cons stops_at_interrupt_append
          simp: is_socket_error_def)
    with u1 u2 show ?case
      by (intro exI [of _ "Send (Raise x) # u1 @ u2"]) auto
  next
    case (ReopenFails x es s r es2 s2)
    from reopenConnection_control [OF ReopenFails(2)] obtain u1 where
      u1: "es = u1 @ es2" "stops_at_interrupt u1 r" "r \<noteq> Blocked"
        "conn s \<noteq> None \<longrightarrow> conn s2 \<noteq> None" by auto
    have "stops_at_interrupt (Send (Raise x) # u1) r"
      using ReopenFails(1) u1(2)
      by (auto intro!: stops_at_interrupt_Cons simp: is_socket_error_def)
    with u1 ReopenFails Some show ?case
      by (intro exI [of _ "Send (Raise x) # u1"]) (auto simp: send_eqs)
  next
    case (NoSend es s)
    then show ?case using Some by (intro exI [of _ "[]"]) (auto simp: send_eqs)
  qed
qed

lemma send_loop_frame:
  assumes "send_loop rng ml es s = (out, es', s')"
  shows "queue s' = queue s \<and> tstate s' = tstate s \<and>
    (if out = Normal then \<exists>p. utf8_encode ml = Some p \<and> wire s' = wire s @ [p]
     else wire s' = wire s)"
proof (cases "utf8_encode ml")
  case None
  with assms show ?thesis by (auto simp: send_eqs)
next
  case (Some p)
  show ?thesis using assms
  proof (induction es s rule: send_induct [where rng = rng])
    case (Retry x es s es2 s2)
    with reopenConnection_frame [OF Retry(2)] Some show ?case
      by (auto simp: send_eqs split: if_splits)
  next
    case (ReopenFails x es s r es2 s2)
    with reopenConnection_frame [OF ReopenFails(2)] Some show ?case
      by (auto simp: send_eqs)
  qed (use Some in \<open>auto simp: send_eqs\<close>)
qed

lemma send_loop_transient:
  assumes "send_loop rng ml es s = (out, es', s')" and "\<forall>e\<in>set es. transient e"
    and "utf8_encode ml \<noteq> None"
  shows "(out = Normal \<or> out = Pending) \<and> (\<forall>e\<in>set es'. transient e)"
proof -
  from assms(3) obtain p where Some: "utf8_encode ml = Some p" by auto
  show ?thesis using assms(1,2)
  proof (induction es s rule: send_induct [where rng = rng])
    case (Retry x es s es2 s2)
    with reopenConnection_transient [OF Retry(2)] Some show ?case by (simp add: send_eqs)
  next
    case (ReopenFails x es s r es2 s2)
    with reopenConnection_transient [OF ReopenFails(2)] Some show ?case
      by (auto simp: send_eqs)
  qed (use Some in \<open>auto simp: send_eqs\<close>)
qed


subsection \<open>The main loop\<close>

lemma queue_get_None: "queue_get q = None \<longleftrightarrow> items q = []"
  by (simp add: queue_get_def split: list.splits)

lemma queue_get_Some:
  "queue_get q = Some (data, q') \<longleftrightarrow> items q = data # items q' \<and> q' = q\<lparr>items := items q'\<rparr>"
  by (cases q; cases q') (auto simp: queue_get_def split: list.splits)

lemma queue_get_SomeD:
  "queue_get q = Some (data, q') \<Longrightarrow> items q = data # items q' \<and> maxsize q' = maxsize q"
  by (auto simp: queue_get_def split: list.splits)

lemma main_loop_control:
  assumes "main_loop rng es s = (out, es', s')"
  shows "\<exists>used. es = used @ es' \<and> stops_at_interrupt used out
     \<and> out \<noteq> Normal \<and> (conn s \<noteq> None \<longrightarrow> conn s' \<noteq> None)"
  using assms
proof (induction es s rule: main_induct [where rng = rng])
  case (Empty es s)
  then show ?case by (intro exI [of _ "[Get Ok]"]) (auto simp: main_eqs)
next
  case (Next es s data q es2 s2)
  from send_loop_control [OF Next(2)] obtain u1 where
    u1: "es = u1 @ es2" "\<not> interrupted u1" "conn s \<noteq> None \<longrightarrow> conn s2 \<noteq> None"
    by (auto dest: stops_at_interrupt_iff)
  from Next obtain u2 where
    u2: "es2 = u2 @ es'" "stops_at_interrupt u2 out"
      "out \<noteq> Normal" "conn s2 \<noteq> None \<longrightarrow> conn s' \<noteq> None"
    by (auto simp: main_eqs)
  have "stops_at_interrupt (Get Ok # u1 @ u2) out"
    using u1(2) u2(2) by (auto intro!: stops_at_interrupt_Cons stops_at_interrupt_append)
  with u1 u2 show ?case by (intro exI [of _ "Get Ok # u1 @ u2"]) auto
next
  case (SendFails es s data q r es2 s2)
  from send_loop_control [OF SendFails(2)] obtain u1 where
    u1: "es = u1 @ es2" "stops_at_interrupt u1 r"
      "conn s \<noteq> None \<longrightarrow> conn s2 \<noteq> None" by auto
  have "stops_at_interrupt (Get Ok # u1) r"
    using u1(2) by (auto intro!: stops_at_interrupt_Cons)
  with u1 SendFails show ?case by (intro exI [of _ "Get Ok # u1"]) (auto simp: main_eqs)
next
  case (GetRaises x es s)
  then show ?case by (intro exI [of _ "[Get (Raise x)]"]) (auto simp: main_eqs)
next
  case (NoGet es s)
  then show ?case by (intro exI [of _ "[]"]) (auto simp: main_eqs)
qed

lemma main_loop_data:
  assumes "main_loop rng es s = (out, es', s')"
  shows "\<exists>ws. wire s' = wire s @ ws \<and> length ws \<le> length (items (queue s))
     \<and> map Some ws = map payload (take (length ws) (items (queue s)))
     \<and> maxsize (queue s') = maxsize (queue s) \<and> tstate s' = tstate s
     \<and> (items (queue s') = drop (length ws) (items (queue s))
        \<or> out \<noteq> Blocked \<and> length ws < length (items (queue s))
           \<and> items (queue s') = drop (Suc (length ws)) (items (queue s)))
     \<and> (out = Blocked \<longrightarrow> items (queue s') = [])"
  using assms
proof (induction es s rule: main_induct [where rng = rng])
  case (Empty es s)
  then show ?case by (intro exI [of _ "[]"]) (auto simp: main_eqs queue_get_None)
next
  case (Next es s data q es2 s2)
  from queue_get_SomeD [OF Next(1)] have q: "items (queue s) = data # items q"
    "maxsize q = maxsize (queue s)" by auto
  from send_loop_frame [OF Next(2)] obtain p where
    p: "payload data = Some p" "wire s2 = wire s @ [p]" "queue s2 = q" "tstate s2 = tstate s"
    by (auto simp: payload_def)
  from Next obtain ws where
    ws: "wire s' = wire s2 @ ws" "length ws \<le> length (items (queue s2))"
      "map Some ws = map payload (take (length ws) (items (queue s2)))"
      "maxsize (queue s') = maxsize (queue s2)" "tstate s' = tstate s2"
      "items (queue s') = drop (length ws) (items (queue s2))
        \<or> out \<noteq> Blocked \<and> length ws < length (items (queue s2))
           \<and> items (queue s') = drop (Suc (length ws)) (items (queue s2))"
      "out = Blocked \<longrightarrow> items (queue s') = []"
    by (auto simp: main_eqs)
  with p q show ?case by (intro exI [of _ "p # ws"]) auto
next
  case (SendFails es s data q r es2 s2)
  from queue_get_SomeD [OF SendFails(1)] have q: "items (queue s) = data # items q"
    "maxsize q = maxsize (queue s)" by auto
  from send_loop_frame [OF SendFails(2)] SendFails(3) have
    "wire s2 = wire s" "queue s2 = q" "tstate s2 = tstate s" by auto
  moreover from send_loop_control [OF SendFails(2)] have "r \<noteq> Blocked" by auto
  ultimately show ?case using SendFails q
    by (intro exI [of _ "[]"]) (auto simp: main_eqs)
next
  case (GetRaises x es s)
  then show ?case by (intro exI [of _ "[]"]) (auto simp: main_eqs)
next
  case (NoGet es s)
  then show ?case by (intro exI [of _ "[]"]) (auto simp: main_eqs)
qed

lemma main_loop_transient:
  assumes "main_loop rng es s = (out, es', s')" and "\<forall>e\<in>set es. transient e"
    and "\<forall>m\<in>set (items (queue s)). payload m \<noteq> None"
  shows "out = Pending \<or> out = Blocked"
  using assms
proof (induction es s rule: main_induct [where rng = rng])
  case (Next es s data q es2 s2)
  from queue_get_SomeD [OF Next(1)] have q: "items (queue s) = data # items q" by auto
  then have enc: "utf8_encode (frame data) \<noteq> None"
    using Next.prems(3) by (simp add: payload_def)
  from send_loop_transient [OF Next(2) _ enc] Next.prems(2) have "\<forall>e\<in>set es2. transient e"
    by simp
  moreover from send_loop_frame [OF Next(2)] have "queue s2 = q" by simp
  ultimately show ?case using Next q by (simp add: main_eqs)
next
  case (SendFails es s data q r es2 s2)
  from queue_get_SomeD [OF SendFails(1)] have q: "items (queue s) = data # items q" by auto
  then have enc: "utf8_encode (frame data) \<noteq> None"
    using SendFails.prems(3) by (simp add: payload_def)
  from send_loop_transient [OF SendFails(2) _ enc] SendFails.prems(2) SendFails(3)
  have "r = Pending" by simp
  with SendFails show ?case by (simp add: main_eqs)
qed (auto simp: main_eqs)


section \<open>Send failures\<close>

text \<open>Scripts: \<open>j\<close> failed attempts to connect, each followed by a sleep; \<open>k\<close> failed
  sends, each followed by a reconnection that succeeds after \<open>j\<close> failed attempts.\<close>

definition failed_connects :: "nat \<Rightarrow> event list" where
  "failed_connects j = concat (replicate j [Connect (Raise SocketError), Sleep Ok])"

definition failed_sends :: "nat \<Rightarrow> nat \<Rightarrow> event list" where
  "failed_sends k j =
     concat (replicate k (Send (Raise SocketError) # failed_connects j @ [Connect Ok]))"

lemma reopen_loop_failed_connects:
  "\<exists>s'. reopen_loop rng d (failed_connects j @ Connect Ok # rest) s = (Normal, rest, s')"
proof (induction j arbitrary: d s)
  case 0
  show ?case by (simp add: failed_connects_def reopen_eqs)
next
  case (Suc j)
  have "failed_connects (Suc j) = Connect (Raise SocketError) # Sleep Ok # failed_connects j"
    by (simp add: failed_connects_def)
  then show ?case using Suc by (simp add: reopen_eqs is_Exception_def)
qed

lemma send_loop_failed_sends:
  assumes "utf8_encode ml = Some p"
  shows "\<exists>s'. send_loop rng ml (failed_sends k j @ Send Ok # rest) s = (Normal, rest, s')
            \<and> wire s' = wire s @ [p]"
proof (induction k arbitrary: s)
  case 0
  show ?case using assms by (simp add: failed_sends_def send_eqs)
next
  case (Suc k)
  let ?rest = "failed_sends k j @ Send Ok # rest"
  have fs: "failed_sends (Suc k) j @ Send Ok # rest =
      Send (Raise SocketError) # failed_connects j @ Connect Ok # ?rest"
    by (simp add: failed_sends_def)
  obtain s1 where
    r: "reopenConnection rng (failed_connects j @ Connect Ok # ?rest) s = (Normal, ?rest, s1)"
    unfolding reopenConnection_def using reopen_loop_failed_connects by blast
  from reopenConnection_frame [OF r] have w: "wire s1 = wire s" by simp
  from Suc [of s1] obtain s' where
    "send_loop rng ml ?rest s1 = (Normal, rest, s')" "wire s' = wire s1 @ [p]" by blast
  then show ?case
    unfolding fs using send_loop_retry [OF assms _ r] w by (simp add: is_socket_error_def)
qed

text \<open>A connected appender with two queued messages, and a script for it.\<close>

definition demo_appender :: SocketAppender where
  "demo_appender =
     (SocketAppender_init [])
       \<lparr>conn := Some Connected,
        queue := \<lparr>maxsize = QUEUE_SIZE, items = [[0x61, 0x0A, 0x62], [0xE9]]\<rparr>\<rparr>"

definition demo_script :: "event list" where
  "demo_script =
     [Get Ok, Send (Raise SocketError), Connect (Raise SocketError), Sleep Ok, Connect Ok,
      Send (Raise SocketError), Connect Ok, Send Ok, Get Ok, Send Ok, Get Ok]"

lemmas eval_defs = main_loop.simps send_loop.simps reopen_loop.simps reopenConnection_def
  closeConnection_def openConnection_def backoff_def dbg_def uniform_def
  queue_get_def frame_def is_unicode_def create_unicode_def replace_def LINE_SEP_def NL_def
  utf8_char_def is_Exception_def is_socket_error_def MAX_DELAY_def MIN_DELAY_def
  SocketAppender_init_def create_queue_def QUEUE_SIZE_def LE_def

lemma demo_run:
  "main_loop (\<lambda>n. 1 / 2) demo_script demo_appender =
     (Blocked, [],
      demo_appender
        \<lparr>queue := \<lparr>maxsize = QUEUE_SIZE, items = []\<rparr>,
         wire := [[0x61, 0xE2, 0x80, 0xA8, 0x62, 0x0A], [0xC3, 0xA9, 0x0A]],
         sleeps := [3 / 10], draws := 1,
         printed := [''LE: Unable to connect to Logentries'']\<rparr>)"
  by (simp add: demo_script_def demo_appender_def eval_defs)

text \<open>
  Claim C1.  Let the script hold transient failures only (a \<open>connect\<close> that raises an
  exception, a \<open>send\<close> that raises a socket error) and let every queued message be
  encodable.  Then the main loop never ends by itself: it is blocked on the empty queue
  or still inside a call when the script ends.  What it sent is the payloads of the
  first messages of the queue, in order, once each; the messages it took from the queue
  are those and at most one more, which it is still sending; when it is blocked on the
  empty queue, every message was sent.  A \<open>send\<close> that fails \<open>k\<close> times, each time
  followed by a reconnection that succeeds after \<open>j\<close> failed attempts, and then
  succeeds, puts the payload on the wire once.
\<close>

theorem send_failure_retries_same_message:
  assumes "list_all transient es"
    and "list_all (\<lambda>m. payload m \<noteq> None) (items (queue s))"
    and "main_loop rng es s = (out, es', s')"
  shows "(out = Pending \<or> out = Blocked)
    \<and> (\<exists>ws. wire s' = wire s @ ws
          \<and> map Some ws = map payload (take (length ws) (items (queue s)))
          \<and> (items (queue s') = drop (length ws) (items (queue s))
             \<or> out = Pending \<and> items (queue s') = drop (Suc (length ws)) (items (queue s)))
          \<and> (out = Blocked \<longrightarrow> length ws = length (items (queue s))))
    \<and> (\<forall>k j rest ml p t. utf8_encode ml = Some p \<longrightarrow>
          (\<exists>t'. send_loop rng ml (failed_sends k j @ Send Ok # rest) t = (Normal, rest, t')
                \<and> wire t' = wire t @ [p]))"
proof -
  have o: "out = Pending \<or> out = Blocked"
    using main_loop_transient [OF assms(3)] assms(1,2) by (simp add: list_all_iff)
  from main_loop_data [OF assms(3)] obtain ws where
    ws: "wire s' = wire s @ ws" "length ws \<le> length (items (queue s))"
      "map Some ws = map payload (take (length ws) (items (queue s)))"
      "items (queue s') = drop (length ws) (items (queue s))
        \<or> out \<noteq> Blocked \<and> length ws < length (items (queue s))
           \<and> items (queue s') = drop (Suc (length ws)) (items (queue s))"
      "out = Blocked \<longrightarrow> items (queue s') = []"
    by blast
  have "out = Blocked \<longrightarrow> length ws = length (items (queue s))"
    using ws(2,4,5) by auto
  moreover have "items (queue s') = drop (length ws) (items (queue s))
      \<or> out = Pending \<and> items (queue s') = drop (Suc (length ws)) (items (queue s))"
    using ws(4) o by auto
  ultimately have "\<exists>ws. wire s' = wire s @ ws
      \<and> map Some ws = map payload (take (length ws) (items (queue s)))
      \<and> (items (queue s') = drop (length ws) (items (queue s))
         \<or> out = Pending \<and> items (queue s') = drop (Suc (length ws)) (items (queue s)))
      \<and> (out = Blocked \<longrightarrow> length ws = length (items (queue s)))"
    using ws(1,3) by blast
  then show ?thesis using o send_loop_failed_sends by blast
qed

theorem send_failure_retries_same_message_witness:
  "list_all transient demo_script
   \<and> list_all (\<lambda>m. payload m \<noteq> None) (items (queue demo_appender))
   \<and> fst (main_loop (\<lambda>n. 1 / 2) demo_script demo_appender) = Blocked
   \<and> wire (snd (snd (main_loop (\<lambda>n. 1 / 2) demo_script demo_appender))) =
       [[0x61, 0xE2, 0x80, 0xA8, 0x62, 0x0A], [0xC3, 0xA9, 0x0A]]
   \<and> length (wire (snd (snd (main_loop (\<lambda>n. 1 / 2) demo_script demo_appender)))) =
       length (items (queue demo_appender))"
proof -
  have a: "list_all transient demo_script"
    by (simp add: demo_script_def is_Exception_def is_socket_error_def)
  have b: "list_all (\<lambda>m. payload m \<noteq> None) (items (queue demo_appender))"
    by (simp add: demo_appender_def payload_def frame_def is_unicode_def replace_def
        LINE_SEP_def NL_def utf8_char_def)
  note r = demo_run
  have l: "length (items (queue demo_appender)) = 2"
    by (simp add: demo_appender_def)
  from send_failure_retries_same_message [OF a b r] show ?thesis
    using a b by (simp add: r l)
qed


section \<open>Interrupts\<close>

text \<open>The line that \<open>run\<close> prints when it catches \<open>KeyboardInterrupt\<close>.\<close>

definition interrupted_line :: string where
  "interrupted_line = LE @ ''Logentries asynchronous socket client interrupted''"

lemma run_control:
  assumes "run rng es s = (out, es', s')"
  shows "\<exists>used. es = used @ es' \<and>
     (if out = Normal
      then used \<noteq> [] \<and> interrupt (last used) \<and> \<not> interrupted (butlast used)
        \<and> conn s' = Some Closed \<and> printed s' \<noteq> [] \<and> last (printed s') = interrupted_line
      else \<not> interrupted used)"
proof -
  obtain r es1 s1 where re: "reopenConnection rng es s = (r, es1, s1)"
    by (cases "reopenConnection rng es s") auto
  from reopenConnection_control [OF re] obtain u1 where
    u1: "es = u1 @ es1" "stops_at_interrupt u1 r" "r \<noteq> Blocked"
      "u1 \<noteq> [] \<longrightarrow> conn s1 \<noteq> None" "r = Normal \<longrightarrow> conn s1 = Some Connected"
    by auto
  show ?thesis
  proof (cases "r = Normal")
    case False
    then have run: "(out, es', s') =
        (if r = Raised KeyboardInterrupt
         then (Normal, es1, closeConnection (dbg ''Logentries asynchronous socket client interrupted'' s1))
         else (r, es1, s1))"
      using assms re u1(3) by (cases r) (auto simp: run_def)
    show ?thesis
    proof (cases "r = Raised KeyboardInterrupt")
      case True
      with u1 run show ?thesis
        by (intro exI [of _ u1])
           (auto simp: stops_at_interrupt_def dbg_def interrupted_line_def)
    next
      case nk: False
      with u1 run False show ?thesis
        by (intro exI [of _ u1]) (auto simp: stops_at_interrupt_def)
    qed
  next
    case True
    obtain r2 es2 s2 where ml: "main_loop rng es1 s1 = (r2, es2, s2)"
      by (cases "main_loop rng es1 s1") auto
    from main_loop_control [OF ml] obtain u2 where
      u2: "es1 = u2 @ es2" "stops_at_interrupt u2 r2" "r2 \<noteq> Normal"
        "conn s1 \<noteq> None \<longrightarrow> conn s2 \<noteq> None"
      by auto
    have n1: "\<not> interrupted u1" using u1(2) True by (simp add: stops_at_interrupt_def)
    have st: "stops_at_interrupt (u1 @ u2) r2"
      using n1 u2(2) by (rule stops_at_interrupt_append)
    have run: "(out, es', s') =
        (if r2 = Raised KeyboardInterrupt
         then (Normal, es2, closeConnection (dbg ''Logentries asynchronous socket client interrupted'' s2))
         else (r2, es2, s2))"
      using assms re ml True u2(3) by (cases r2) (auto simp: run_def)
    have c2: "conn s2 \<noteq> None" using u1(5) u2(4) True by simp
    show ?thesis
    proof (cases "r2 = Raised KeyboardInterrupt")
      case True
      with st run u1(1) u2(1) c2 show ?thesis
        by (intro exI [of _ "u1 @ u2"])
           (auto simp: stops_at_interrupt_def dbg_def interrupted_line_def)
    next
      case False
      with st run u1(1) u2(1) u2(3) show ?thesis
        by (intro exI [of _ "u1 @ u2"]) (auto simp: stops_at_interrupt_def)
    qed
  qed
qed


text \<open>
  What an interrupt does to the dispatcher.  When one of the events that \<open>run\<close> consumed
  delivers \<open>KeyboardInterrupt\<close> (to \<open>connect\<close>, \<open>sleep\<close>, \<open>get\<close> or \<open>send\<close>, at any
  depth of the retry loops), it is the last event consumed: \<open>run\<close> makes no further call,
  prints its message, closes the connection and returns normally, so that no exception
  leaves the thread; the thread of a handler is then stopped.
\<close>

theorem interrupt_ends_dispatcher_cleanly:
  assumes "run rng es s = (out, es', s')" and "es = used @ es'" and "interrupted used"
  shows "out = Normal \<and> interrupt (last used) \<and> \<not> interrupted (butlast used)
    \<and> conn s' = Some Closed \<and> last (printed s') = interrupted_line
    \<and> (\<forall>h. started h \<and> thread h = s \<longrightarrow>
          dispatch rng es h = h\<lparr>thread := s'\<lparr>tstate := Stopped\<rparr>\<rparr>)"
proof -
  from run_control [OF assms(1)] obtain u where
    u: "es = u @ es'"
      "if out = Normal
       then u \<noteq> [] \<and> interrupt (last u) \<and> \<not> interrupted (butlast u)
         \<and> conn s' = Some Closed \<and> printed s' \<noteq> [] \<and> last (printed s') = interrupted_line
       else \<not> interrupted u"
    by blast
  have "u = used" using u(1) assms(2) by simp
  with u(2) assms(3) have n: "out = Normal" and
    r: "interrupt (last used) \<and> \<not> interrupted (butlast used)
      \<and> conn s' = Some Closed \<and> last (printed s') = interrupted_line"
    by (auto split: if_splits)
  have "dispatch rng es h = h\<lparr>thread := s'\<lparr>tstate := Stopped\<rparr>\<rparr>"
    if "started h" "thread h = s" for h
    using that assms(1) n by (simp add: dispatch_def started_def)
  with n r show ?thesis by blast
qed


theorem interrupt_ends_dispatcher_cleanly_witness:
  "(fst (run (\<lambda>n. 1 / 2) [Connect (Raise KeyboardInterrupt), Connect Ok] demo_appender) = Normal
    \<and> conn (snd (snd (run (\<lambda>n. 1 / 2) [Connect (Raise KeyboardInterrupt), Connect Ok]
          demo_appender))) = Some Closed)
   \<and> fst (run (\<lambda>n. 1 / 2)
        [Connect (Raise SocketError), Sleep (Raise KeyboardInterrupt), Connect Ok]
        demo_appender) = Normal
   \<and> fst (run (\<lambda>n. 1 / 2) [Connect Ok, Get (Raise KeyboardInterrupt), Get Ok]
        demo_appender) = Normal
   \<and> fst (run (\<lambda>n. 1 / 2) [Connect Ok, Get Ok, Send (Raise KeyboardInterrupt), Send Ok]
        demo_appender) = Normal
   \<and> (fst (run (\<lambda>n. 1 / 2)
         [Connect Ok, Get Ok, Send (Raise SocketError), Connect (Raise OtherError), Sleep Ok,
          Connect (Raise SocketError), Sleep (Raise KeyboardInterrupt), Connect Ok, Send Ok]
         demo_appender) = Normal
      \<and> fst (snd (run (\<lambda>n. 1 / 2)
         [Connect Ok, Get Ok, Send (Raise SocketError), Connect (Raise OtherError), Sleep Ok,
          Connect (Raise SocketError), Sleep (Raise KeyboardInterrupt), Connect Ok, Send Ok]
         demo_appender)) = [Connect Ok, Send Ok])"
proof -
  let ?rng = "\<lambda>n::nat. 1 / 2 :: rat"
  let ?u1 = "[Connect (Raise KeyboardInterrupt)]"
  let ?u2 = "[Connect (Raise SocketError), Sleep (Raise KeyboardInterrupt)]"
  let ?u3 = "[Connect Ok, Get (Raise KeyboardInterrupt)]"
  let ?u4 = "[Connect Ok, Get Ok, Send (Raise KeyboardInterrupt)]"
  let ?u5 = "[Connect Ok, Get Ok, Send (Raise SocketError), Connect (Raise OtherError),
    Sleep Ok, Connect (Raise SocketError), Sleep (Raise KeyboardInterrupt)]"
  obtain o1 s1 where r1: "run ?rng (?u1 @ [Connect Ok]) demo_appender = (o1, [Connect Ok], s1)"
    by (simp add: run_def demo_appender_def eval_defs)
  obtain o2 s2 where r2: "run ?rng (?u2 @ [Connect Ok]) demo_appender = (o2, [Connect Ok], s2)"
    by (simp add: run_def demo_appender_def eval_defs)
  obtain o3 s3 where r3: "run ?rng (?u3 @ [Get Ok]) demo_appender = (o3, [Get Ok], s3)"
    by (simp add: run_def demo_appender_def eval_defs)
  obtain o4 s4 where r4: "run ?rng (?u4 @ [Send Ok]) demo_appender = (o4, [Send Ok], s4)"
    by (simp add: run_def demo_appender_def eval_defs)
  obtain o5 s5 where
    r5: "run ?rng (?u5 @ [Connect Ok, Send Ok]) demo_appender = (o5, [Connect Ok, Send Ok], s5)"
    by (simp add: run_def demo_appender_def eval_defs)
  have "o1 = Normal \<and> conn s1 = Some Closed"
    using interrupt_ends_dispatcher_cleanly [OF r1, of ?u1] by simp
  moreover have "o2 = Normal"
    using interrupt_ends_dispatcher_cleanly [OF r2, of ?u2] by simp
  moreover have "o3 = Normal"
    using interrupt_ends_dispatcher_cleanly [OF r3, of ?u3] by simp
  moreover have "o4 = Normal"
    using interrupt_ends_dispatcher_cleanly [OF r4, of ?u4] by simp
  moreover have "o5 = Normal"
    using interrupt_ends_dispatcher_cleanly [OF r5, of ?u5] by simp
  ultimately show ?thesis using r1 r2 r3 r4 r5 by simp
qed


section \<open>Framing\<close>

lemma utf8_char_newline:
  "utf8_char c = Some bs \<Longrightarrow> (if c = 0x0A then bs = [0x0A] else 0x0A \<notin> set bs)"
  by (auto simp: utf8_char_def split: if_splits)

lemma utf8_char_bytes: "utf8_char c = Some bs \<Longrightarrow> \<forall>b\<in>set bs. b < 256"
  by (auto simp: utf8_char_def split: if_splits)

lemma utf8_encode_append:
  "utf8_encode (xs @ ys) =
     (case utf8_encode xs of
        None \<Rightarrow> None
      | Some a \<Rightarrow> (case utf8_encode ys of None \<Rightarrow> None | Some b \<Rightarrow> Some (a @ b)))"
  by (induction xs) (auto split: option.splits)

lemma utf8_encode_newline_free:
  "utf8_encode cs = Some bs \<Longrightarrow> 0x0A \<notin> set cs \<Longrightarrow> 0x0A \<notin> set bs"
proof (induction cs arbitrary: bs)
  case Nil
  then show ?case by simp
next
  case (Cons c cs)
  then show ?case
    using utf8_char_newline [of c] by (auto split: option.splits if_splits)
qed

lemma replace_LINE_SEP:
  "replace 0x0A LINE_SEP m = map (\<lambda>c. if c = 0x0A then 0x2028 else c) m"
  by (induction m) (simp_all add: replace_def LINE_SEP_def)

lemma replace_newline_free: "0x0A \<notin> set (replace 0x0A LINE_SEP m)"
  by (auto simp: replace_LINE_SEP)

lemma replace_append:
  "replace old new (xs @ ys) = replace old new xs @ replace old new ys"
  by (simp add: replace_def)

lemma frame_eq: "frame m = replace 0x0A LINE_SEP m @ [0x0A]"
  by (simp add: frame_def is_unicode_def NL_def)

text \<open>A payload is the encoding of a text without newline, followed by one newline byte.\<close>

lemma payload_shape:
  assumes "payload m = Some w"
  shows "\<exists>b. utf8_encode (replace 0x0A LINE_SEP m) = Some b \<and> w = b @ [0x0A] \<and> 0x0A \<notin> set b"
proof -
  from assms obtain b where b: "utf8_encode (replace 0x0A LINE_SEP m) = Some b"
    and w: "w = b @ [0x0A]"
    by (auto simp: payload_def frame_eq utf8_encode_append utf8_char_def split: option.splits)
  from utf8_encode_newline_free [OF b replace_newline_free] b w show ?thesis by blast
qed


lemma run_data:
  assumes "run rng es s = (out, es', s')"
  shows "\<exists>ws. wire s' = wire s @ ws \<and> length ws \<le> length (items (queue s))
     \<and> map Some ws = map payload (take (length ws) (items (queue s)))
     \<and> tstate s' = tstate s
     \<and> (items (queue s') = drop (length ws) (items (queue s))
        \<or> items (queue s') = drop (Suc (length ws)) (items (queue s)))"
proof -
  obtain r es1 s1 where re: "reopenConnection rng es s = (r, es1, s1)"
    by (cases "reopenConnection rng es s") auto
  from reopenConnection_frame [OF re] have f1:
    "wire s1 = wire s" "queue s1 = queue s" "tstate s1 = tstate s" by auto
  show ?thesis
  proof (cases "r = Normal")
    case False
    then have "wire s' = wire s \<and> queue s' = queue s \<and> tstate s' = tstate s"
      using assms re f1 by (cases r) (auto simp: run_def dbg_def split: if_splits)
    then show ?thesis by (intro exI [of _ "[]"]) simp
  next
    case True
    obtain r2 es2 s2 where ml: "main_loop rng es1 s1 = (r2, es2, s2)"
      by (cases "main_loop rng es1 s1") auto
    from main_loop_data [OF ml] obtain ws where
      ws: "wire s2 = wire s1 @ ws" "length ws \<le> length (items (queue s1))"
        "map Some ws = map payload (take (length ws) (items (queue s1)))"
        "tstate s2 = tstate s1"
        "items (queue s2) = drop (length ws) (items (queue s1))
          \<or> items (queue s2) = drop (Suc (length ws)) (items (queue s1))"
      by blast
    have "wire s' = wire s2 \<and> queue s' = queue s2 \<and> tstate s' = tstate s2"
      using assms re ml True by (cases r2) (auto simp: run_def dbg_def split: if_splits)
    with ws f1 show ?thesis by (intro exI [of _ ws]) simp
  qed
qed

text \<open>The transmitted line of a message, in the words of the specification: every
  embedded newline replaced by U+2028, one newline appended, the whole encoded in UTF-8.\<close>

definition line_of_message :: "ustr \<Rightarrow> byte list option" where
  "line_of_message m = utf8_encode (map (\<lambda>c. if c = 0x0A then 0x2028 else c) m @ [0x0A])"

lemma payload_line_of_message: "payload m = line_of_message m"
  by (simp add: payload_def line_of_message_def frame_eq replace_LINE_SEP)

text \<open>
  Claim C3.  The bytes that \<open>run\<close> computes for a message are its line as the
  specification words it.  Whatever the script, what \<open>run\<close> sent is the lines of the
  first messages of the queue, one byte string for each, in the order of the queue, and
  each of them holds exactly one newline byte.
\<close>

theorem transmitted_bytes_are_lines:
  assumes "run rng es s = (out, es', s')"
  shows "(\<forall>m. payload m = line_of_message m)
    \<and> (\<exists>ws. wire s' = wire s @ ws \<and> length ws \<le> length (items (queue s))
          \<and> map Some ws = map line_of_message (take (length ws) (items (queue s)))
          \<and> (\<forall>w\<in>set ws. count_list w 0x0A = 1))"
proof -
  from run_data [OF assms] obtain ws where
    ws: "wire s' = wire s @ ws" "length ws \<le> length (items (queue s))"
      "map Some ws = map payload (take (length ws) (items (queue s)))"
    by blast
  have "count_list w 0x0A = 1" if "w \<in> set ws" for w
  proof -
    from that obtain i where i: "i < length ws" "w = ws ! i"
      by (auto simp: in_set_conv_nth)
    have "map Some ws ! i = map payload (take (length ws) (items (queue s))) ! i"
      using ws(3) by simp
    then have "payload (items (queue s) ! i) = Some w"
      using i ws(2) by simp
    from payload_shape [OF this] obtain b where "w = b @ [0x0A]" "0x0A \<notin> set b"
      by blast
    then show ?thesis by (simp add: count_list_0_iff)
  qed
  with ws show ?thesis
    by (auto simp: payload_line_of_message [abs_def] )
qed


theorem transmitted_bytes_are_lines_witness:
  "wire (snd (snd (run (\<lambda>n. 1 / 2) [Connect Ok, Get Ok, Send Ok, Get Ok, Send Ok, Get Ok]
      demo_appender))) =
     [[0x61, 0xE2, 0x80, 0xA8, 0x62, 0x0A], [0xC3, 0xA9, 0x0A]]
   \<and> line_of_message [0x61, 0x0A, 0x62] = Some [0x61, 0xE2, 0x80, 0xA8, 0x62, 0x0A]
   \<and> payload [0x61, 0x0A, 0x62] = line_of_message [0x61, 0x0A, 0x62]"
proof -
  obtain out es' s' where
    r: "run (\<lambda>n. 1 / 2) [Connect Ok, Get Ok, Send Ok, Get Ok, Send Ok, Get Ok] demo_appender =
          (out, es', s')"
      and w: "wire s' = [[0x61, 0xE2, 0x80, 0xA8, 0x62, 0x0A], [0xC3, 0xA9, 0x0A]]"
    by (simp add: run_def demo_appender_def eval_defs)
  have l: "line_of_message [0x61, 0x0A, 0x62] = Some [0x61, 0xE2, 0x80, 0xA8, 0x62, 0x0A]"
    by (simp add: line_of_message_def utf8_char_def)
  from transmitted_bytes_are_lines [OF r] show ?thesis
    using r w l by simp
qed


section \<open>The priming message\<close>

lemma emit_frame:
  assumes "emit t h = (out, h')"
  shows "wire (thread h') = wire (thread h) \<and> token h' = token h
    \<and> (\<exists>k. items (queue (thread h')) = items (queue (thread h)) @ take k [token h @ rstrip_nl t])"
proof -
  have "items (queue (thread h')) = items (queue (thread h)) @ take 0 [token h @ rstrip_nl t]
      \<or> items (queue (thread h')) = items (queue (thread h)) @ take 1 [token h @ rstrip_nl t]"
    using assms
    by (auto simp: emit_def Let_def start_def dbg_def queue_put_def
        split: if_splits option.splits)
  moreover have "wire (thread h') = wire (thread h) \<and> token h' = token h"
    using assms
    by (auto simp: emit_def Let_def start_def dbg_def queue_put_def
        split: if_splits option.splits)
  ultimately show ?thesis by blast
qed

lemma submit_all_frame:
  "submit_all ts h = (out, h') \<Longrightarrow>
   wire (thread h') = wire (thread h) \<and> token h' = token h
   \<and> (\<exists>k. items (queue (thread h')) =
          items (queue (thread h)) @ map (\<lambda>t. token h @ rstrip_nl t) (take k ts))"
proof (induction ts arbitrary: h)
  case Nil
  then show ?case by simp
next
  case (Cons t ts)
  obtain r h1 where e: "emit t h = (r, h1)" by (cases "emit t h") auto
  from emit_frame [OF e] obtain j where
    f: "wire (thread h1) = wire (thread h)" "token h1 = token h"
      "items (queue (thread h1)) = items (queue (thread h)) @ take j [token h @ rstrip_nl t]"
    by blast
  show ?case
  proof (cases "r = Normal")
    case False
    then have "h' = h1" using Cons.prems e by (cases r) auto
    moreover have "take j [token h @ rstrip_nl t] =
        map (\<lambda>t. token h @ rstrip_nl t) (take (min j 1) (t # ts))"
      by (cases j) simp_all
    ultimately show ?thesis using f by metis
  next
    case True
    then have s: "submit_all ts h1 = (out, h')" using Cons.prems e by simp
    from emit_Normal(1) [OF e [unfolded True]] have
      i: "items (queue (thread h1)) = items (queue (thread h)) @ [token h @ rstrip_nl t]" .
    from Cons.IH [OF s] obtain k where
      "wire (thread h') = wire (thread h1)" "token h' = token h1"
      "items (queue (thread h')) =
         items (queue (thread h1)) @ map (\<lambda>t. token h1 @ rstrip_nl t) (take k ts)"
      by blast
    with f i have "wire (thread h') = wire (thread h) \<and> token h' = token h
      \<and> items (queue (thread h')) =
          items (queue (thread h)) @ map (\<lambda>t. token h @ rstrip_nl t) (take (Suc k) (t # ts))"
      by simp
    then show ?thesis by blast
  qed
qed

lemma dispatch_data:
  "\<exists>ws. wire (thread (dispatch rng es h)) = wire (thread h) @ ws
     \<and> length ws \<le> length (items (queue (thread h)))
     \<and> map Some ws = map payload (take (length ws) (items (queue (thread h))))"
proof (cases "is_alive (thread h)")
  case False
  then show ?thesis by (intro exI [of _ "[]"]) (simp add: dispatch_def)
next
  case True
  obtain out es' s' where r: "run rng es (thread h) = (out, es', s')"
    by (cases "run rng es (thread h)") auto
  from run_data [OF r] obtain ws where
    "wire s' = wire (thread h) @ ws" "length ws \<le> length (items (queue (thread h)))"
    "map Some ws = map payload (take (length ws) (items (queue (thread h))))"
    by blast
  moreover have "wire (thread (dispatch rng es h)) = wire s'"
    using True r by (cases out) (simp_all add: dispatch_def)
  ultimately show ?thesis by (intro exI [of _ ws]) simp
qed

lemma LIBRARY_IDENTIFIER_eq:
  "LIBRARY_IDENTIFIER =
     [35, 35, 35, 80, 48, 49, 35, 35, 35, 32, 45, 32, 76, 105, 98, 114, 97, 114, 121, 32,
      73, 110, 105, 116, 105, 97, 108, 105, 115, 101, 100]"
  by (simp add: LIBRARY_IDENTIFIER_def ascii_def)

lemma LIBRARY_IDENTIFIER_bytes:
  "replace 0x0A LINE_SEP LIBRARY_IDENTIFIER = LIBRARY_IDENTIFIER"
  "utf8_encode LIBRARY_IDENTIFIER = Some LIBRARY_IDENTIFIER"
  by (simp_all add: LIBRARY_IDENTIFIER_eq replace_LINE_SEP utf8_char_def)

text \<open>The payload of the priming message.\<close>

lemma priming_payload:
  assumes "payload (tok @ LIBRARY_IDENTIFIER @ NL) = Some w"
  shows "\<exists>b. utf8_encode (replace 0x0A LINE_SEP tok) = Some b \<and> 0x0A \<notin> set b
    \<and> w = b @ LIBRARY_IDENTIFIER @ [0xE2, 0x80, 0xA8, 0x0A]"
proof -
  have "frame (tok @ LIBRARY_IDENTIFIER @ NL) =
      replace 0x0A LINE_SEP tok @ LIBRARY_IDENTIFIER @ [0x2028, 0x0A]"
    by (simp add: frame_eq replace_append LIBRARY_IDENTIFIER_bytes)
       (simp add: NL_def replace_def LINE_SEP_def)
  with assms obtain b where b: "utf8_encode (replace 0x0A LINE_SEP tok) = Some b"
    and w: "w = b @ LIBRARY_IDENTIFIER @ [0xE2, 0x80, 0xA8, 0x0A]"
    by (auto simp: payload_def utf8_encode_append LIBRARY_IDENTIFIER_bytes utf8_char_def
        split: option.splits)
  from utf8_encode_newline_free [OF b replace_newline_free] b w show ?thesis by blast
qed

text \<open>The first byte string on the wire of a handler that was constructed, then used by
  a producer, then served by its thread.\<close>

lemma first_payload:
  assumes "LogentriesHandler_init check_token tok = (r0, h0)"
    and "submit_all ts h0 = (out, h)"
    and "wire (thread (dispatch rng es h)) \<noteq> []"
  shows "payload (tok @ LIBRARY_IDENTIFIER @ NL) = Some (hd (wire (thread (dispatch rng es h))))"
proof -
  have h0: "items (queue (thread h0)) = [tok @ LIBRARY_IDENTIFIER @ NL]"
    "wire (thread h0) = []"
    using assms(1) by (auto simp: init_eq)
  from submit_all_frame [OF assms(2)] h0 obtain rest where
    h: "wire (thread h) = []" "items (queue (thread h)) = (tok @ LIBRARY_IDENTIFIER @ NL) # rest"
    by auto
  from dispatch_data [of rng es h] h obtain ws where
    ws: "wire (thread (dispatch rng es h)) = ws"
      "map Some ws = map payload (take (length ws) ((tok @ LIBRARY_IDENTIFIER @ NL) # rest))"
    by auto
  with assms(3) obtain w ws' where "ws = w # ws'" by (cases ws) auto
  with ws show ?thesis by simp
qed


lemma demo_token_eq:
  "demo_token =
     [50, 98, 102, 98, 101, 97, 49, 101, 45, 49, 48, 99, 51, 45, 52, 52, 49, 57, 45, 98,
      100, 97, 100, 45, 55, 101, 54, 52, 51, 53, 56, 56, 50, 101, 49, 102]"
  by (simp add: demo_token_def ascii_def)

text \<open>The handler after one submission, and what its thread sends first.\<close>

definition demo_started :: LogentriesHandler where
  "demo_started = snd (submit_all [[0x61]] demo_handler)"

lemma demo_started_eq:
  "demo_started =
     demo_handler\<lparr>thread := (thread demo_handler)
       \<lparr>printed := [starting_line], tstate := Alive,
        queue := \<lparr>maxsize = QUEUE_SIZE,
                  items = [demo_token @ LIBRARY_IDENTIFIER @ NL, demo_token @ [0x61]]\<rparr>\<rparr>\<rparr>"
proof -
  have r: "rstrip_nl [0x61] = [0x61]" by (simp add: rstrip_nl_def)
  have p: "printed (thread demo_handler) = []"
    by (simp add: demo_handler_def init_eq accept_any_def)
  show ?thesis
    by (simp add: demo_started_def emit_first demo_handler_facts queue_put_def QUEUE_SIZE_def
        r p)
qed

lemma demo_first_line:
  "wire (thread (dispatch (\<lambda>n. 1 / 2) [Connect Ok, Get Ok, Send Ok] demo_started)) =
     [demo_token @ LIBRARY_IDENTIFIER @ [0xE2, 0x80, 0xA8, 0x0A]]"
proof -
  have t: "thread demo_started =
      \<lparr>conn = None,
       queue = \<lparr>maxsize = QUEUE_SIZE,
                items = [demo_token @ LIBRARY_IDENTIFIER @ NL, demo_token @ [0x61]]\<rparr>,
       tstate = Alive, wire = [], sleeps = [], draws = 0, printed = [starting_line]\<rparr>"
    by (simp add: demo_started_eq demo_handler_def init_eq accept_any_def)
  have f: "frame (demo_token @ LIBRARY_IDENTIFIER @ NL) =
      demo_token @ LIBRARY_IDENTIFIER @ [0x2028, 0x0A]"
    by (simp add: frame_eq replace_LINE_SEP NL_def demo_token_eq LIBRARY_IDENTIFIER_eq)
  have u: "utf8_encode (demo_token @ LIBRARY_IDENTIFIER @ [0x2028, 0x0A]) =
      Some (demo_token @ LIBRARY_IDENTIFIER @ [0xE2, 0x80, 0xA8, 0x0A])"
    by (simp add: demo_token_eq LIBRARY_IDENTIFIER_eq utf8_char_def)
  have "run (\<lambda>n. 1 / 2) [Connect Ok, Get Ok, Send Ok] (thread demo_started) =
      (Pending, [],
       (thread demo_started)
         \<lparr>conn := Some Connected,
          queue := \<lparr>maxsize = QUEUE_SIZE, items = [demo_token @ [0x61]]\<rparr>,
          wire := [demo_token @ LIBRARY_IDENTIFIER @ [0xE2, 0x80, 0xA8, 0x0A]]\<rparr>)"
    unfolding t run_def
    by (simp add: main_loop.simps send_loop.simps reopen_loop.simps reopenConnection_def
        closeConnection_def openConnection_def queue_get_def f u)
  then show ?thesis
    by (simp add: dispatch_def is_alive_def t)
qed


text \<open>
  Claim C9.  Every byte string that \<open>run\<close> hands to \<open>send\<close> is not empty, ends in
  the newline byte and holds no other newline byte.  The constructor enqueues the priming
  message with a newline of its own at the end; that newline is replaced like any other,
  so the first byte string on the wire ends in the three bytes of U+2028 followed by the
  newline byte, with no newline byte before them.
\<close>

theorem payload_has_one_final_newline:
  assumes "run rng es s = (out, es', s')"
    and "LogentriesHandler_init check_token tok = (r0, h0)"
    and "submit_all ts h0 = (out2, h)"
    and "wire (thread (dispatch rng2 es2 h)) \<noteq> []"
  shows "(\<exists>ws. wire s' = wire s @ ws
          \<and> (\<forall>w\<in>set ws. w \<noteq> [] \<and> last w = 0x0A \<and> 0x0A \<notin> set (butlast w)))
    \<and> items (queue (thread h0)) = [tok @ LIBRARY_IDENTIFIER @ [0x0A]]
    \<and> utf8_encode LINE_SEP = Some [0xE2, 0x80, 0xA8]
    \<and> (\<exists>b. hd (wire (thread (dispatch rng2 es2 h))) = b @ [0xE2, 0x80, 0xA8, 0x0A]
            \<and> 0x0A \<notin> set b)"
proof -
  from run_data [OF assms(1)] obtain ws where
    ws: "wire s' = wire s @ ws" "length ws \<le> length (items (queue s))"
      "map Some ws = map payload (take (length ws) (items (queue s)))"
    by blast
  have "w \<noteq> [] \<and> last w = 0x0A \<and> 0x0A \<notin> set (butlast w)" if "w \<in> set ws" for w
  proof -
    from that obtain i where i: "i < length ws" "w = ws ! i"
      by (auto simp: in_set_conv_nth)
    have "map Some ws ! i = map payload (take (length ws) (items (queue s))) ! i"
      using ws(3) by simp
    then have "payload (items (queue s) ! i) = Some w"
      using i ws(2) by simp
    from payload_shape [OF this] obtain b where "w = b @ [0x0A]" "0x0A \<notin> set b"
      by blast
    then show ?thesis by simp
  qed
  with ws(1) have a: "\<exists>ws. wire s' = wire s @ ws
      \<and> (\<forall>w\<in>set ws. w \<noteq> [] \<and> last w = 0x0A \<and> 0x0A \<notin> set (butlast w))"
    by blast
  have b: "items (queue (thread h0)) = [tok @ LIBRARY_IDENTIFIER @ [0x0A]]"
    using assms(2) by (auto simp: init_eq NL_def)
  have c: "utf8_encode LINE_SEP = Some [0xE2, 0x80, 0xA8]"
    by (simp add: LINE_SEP_def utf8_char_def)
  from priming_payload [OF first_payload [OF assms(2,3,4)]] obtain bt where
    "0x0A \<notin> set bt"
    "hd (wire (thread (dispatch rng2 es2 h))) = bt @ LIBRARY_IDENTIFIER @ [0xE2, 0x80, 0xA8, 0x0A]"
    by blast
  then have "hd (wire (thread (dispatch rng2 es2 h))) =
      (bt @ LIBRARY_IDENTIFIER) @ [0xE2, 0x80, 0xA8, 0x0A] \<and> 0x0A \<notin> set (bt @ LIBRARY_IDENTIFIER)"
    by (simp add: LIBRARY_IDENTIFIER_eq)
  then have d: "\<exists>b. hd (wire (thread (dispatch rng2 es2 h))) = b @ [0xE2, 0x80, 0xA8, 0x0A]
      \<and> 0x0A \<notin> set b"
    by blast
  from a b c d show ?thesis by blast
qed

theorem payload_has_one_final_newline_witness:
  "wire (snd (snd (run (\<lambda>n. 1 / 2) [Connect Ok, Get Ok, Send Ok, Get Ok] demo_appender))) =
     [[0x61, 0xE2, 0x80, 0xA8, 0x62, 0x0A]]
   \<and> wire (thread (dispatch (\<lambda>n. 1 / 2) [Connect Ok, Get Ok, Send Ok]
        (snd (submit_all [[0x61]] (snd (LogentriesHandler_init accept_any demo_token)))))) =
     [demo_token @ LIBRARY_IDENTIFIER @ [0xE2, 0x80, 0xA8, 0x0A]]"
proof -
  obtain out es' s' where
    r: "run (\<lambda>n. 1 / 2) [Connect Ok, Get Ok, Send Ok, Get Ok] demo_appender = (out, es', s')"
      and w: "wire s' = [[0x61, 0xE2, 0x80, 0xA8, 0x62, 0x0A]]"
    by (simp add: run_def demo_appender_def eval_defs)
  obtain r0 where i: "LogentriesHandler_init accept_any demo_token = (r0, demo_handler)"
    by (simp add: demo_handler_def init_eq)
  obtain out2 where s: "submit_all [[0x61]] demo_handler = (out2, demo_started)"
    by (cases "submit_all [[0x61]] demo_handler") (simp add: demo_started_def)
  have n: "wire (thread (dispatch (\<lambda>n. 1 / 2) [Connect Ok, Get Ok, Send Ok] demo_started)) \<noteq> []"
    by (simp add: demo_first_line)
  from payload_has_one_final_newline [OF r i s n] show ?thesis
    using r w i s demo_first_line by simp
qed

text \<open>
  Claim C5, as amended.  The constructor puts one message in the queue, the token followed
  by the library identifier and a newline; every submitted message is behind it.  When
  the thread of a handler whose credential passed the check has sent anything after the
  submissions, the first byte string on the wire begins with the bytes of the token
  (its newlines, if any, replaced) followed by the bytes of the library identifier, and
  the byte strings on the wire are the payloads of the first messages of the queue.
\<close>

theorem priming_message_is_first:
  assumes "check_token tok"
    and "LogentriesHandler_init check_token tok = (r0, h0)"
    and "submit_all (t # ts) h0 = (out, h)"
    and "wire (thread (dispatch rng es h)) \<noteq> []"
  shows "items (queue (thread h0)) = [tok @ LIBRARY_IDENTIFIER @ NL]
    \<and> (\<exists>k. items (queue (thread h)) =
            (tok @ LIBRARY_IDENTIFIER @ NL) # map (\<lambda>t. tok @ rstrip_nl t) (take k (t # ts)))
    \<and> map Some (wire (thread (dispatch rng es h))) =
        map payload (take (length (wire (thread (dispatch rng es h)))) (items (queue (thread h))))
    \<and> (\<exists>b rest. utf8_encode (replace 0x0A LINE_SEP tok) = Some b
          \<and> hd (wire (thread (dispatch rng es h))) = b @ LIBRARY_IDENTIFIER @ rest)
    \<and> (0x0A \<notin> set tok \<longrightarrow> replace 0x0A LINE_SEP tok = tok)"
proof -
  have h0: "items (queue (thread h0)) = [tok @ LIBRARY_IDENTIFIER @ NL]"
    "wire (thread h0) = []" "token h0 = tok"
    using assms(2) by (auto simp: init_eq)
  from submit_all_frame [OF assms(3)] h0 obtain k where
    h: "wire (thread h) = []"
      "items (queue (thread h)) =
         (tok @ LIBRARY_IDENTIFIER @ NL) # map (\<lambda>t. tok @ rstrip_nl t) (take k (t # ts))"
    by auto
  from dispatch_data [of rng es h] h(1) have
    w: "map Some (wire (thread (dispatch rng es h))) =
        map payload (take (length (wire (thread (dispatch rng es h)))) (items (queue (thread h))))"
    by auto
  from priming_payload [OF first_payload [OF assms(2,3,4)]] obtain b where
    b: "utf8_encode (replace 0x0A LINE_SEP tok) = Some b"
      "hd (wire (thread (dispatch rng es h))) = b @ LIBRARY_IDENTIFIER @ [0xE2, 0x80, 0xA8, 0x0A]"
    by blast
  have "0x0A \<notin> set tok \<longrightarrow> replace 0x0A LINE_SEP tok = tok"
    by (auto simp: replace_LINE_SEP intro: map_idI)
  with h0(1) h(2) w b show ?thesis by blast
qed

theorem priming_message_is_first_witness:
  "accept_any demo_token
   \<and> hd (wire (thread (dispatch (\<lambda>n. 1 / 2) [Connect Ok, Get Ok, Send Ok]
        (snd (submit_all [[0x61]] (snd (LogentriesHandler_init accept_any demo_token))))))) =
      demo_token @ LIBRARY_IDENTIFIER @ [0xE2, 0x80, 0xA8, 0x0A]
   \<and> utf8_encode (replace 0x0A LINE_SEP demo_token) = Some demo_token"
proof -
  have a: "accept_any demo_token" by (simp add: accept_any_def)
  obtain r0 where i: "LogentriesHandler_init accept_any demo_token = (r0, demo_handler)"
    by (simp add: demo_handler_def init_eq)
  obtain out where s: "submit_all ([0x61] # []) demo_handler = (out, demo_started)"
    by (cases "submit_all [[0x61]] demo_handler") (simp add: demo_started_def)
  have n: "wire (thread (dispatch (\<lambda>n. 1 / 2) [Connect Ok, Get Ok, Send Ok] demo_started)) \<noteq> []"
    by (simp add: demo_first_line)
  have u: "utf8_encode (replace 0x0A LINE_SEP demo_token) = Some demo_token"
    by (simp add: replace_LINE_SEP demo_token_eq utf8_char_def)
  from priming_message_is_first [OF a i s n] show ?thesis
    using a i s u demo_first_line by simp
qed

text \<open>Claim C5 as stated fails: the first line does not begin with the library
  identifier followed by the token.  It begins with the token.\<close>

theorem first_line_begins_with_identifier_counterexample:
  "wire (thread (dispatch (\<lambda>n. 1 / 2) [Connect Ok, Get Ok, Send Ok]
      (snd (submit_all [[0x61]] (snd (LogentriesHandler_init accept_any demo_token)))))) \<noteq> []
   \<and> take (length (LIBRARY_IDENTIFIER @ demo_token))
        (hd (wire (thread (dispatch (\<lambda>n. 1 / 2) [Connect Ok, Get Ok, Send Ok]
          (snd (submit_all [[0x61]] (snd (LogentriesHandler_init accept_any demo_token))))))))
      \<noteq> LIBRARY_IDENTIFIER @ demo_token
   \<and> utf8_encode (LIBRARY_IDENTIFIER @ demo_token) = Some (LIBRARY_IDENTIFIER @ demo_token)"
proof -
  have d: "snd (submit_all [[0x61]] (snd (LogentriesHandler_init accept_any demo_token))) =
      demo_started"
    by (simp add: demo_started_def demo_handler_def)
  have u: "utf8_encode (LIBRARY_IDENTIFIER @ demo_token) = Some (LIBRARY_IDENTIFIER @ demo_token)"
    by (simp add: demo_token_eq LIBRARY_IDENTIFIER_eq utf8_char_def)
  show ?thesis
    unfolding d demo_first_line using u
    by (simp add: demo_token_eq LIBRARY_IDENTIFIER_eq)
qed


section \<open>Backoff\<close>

text \<open>The base delay before the \<open>k\<close>-th sleep of a reconnect sequence, in the words of
  the specification: it starts from \<open>MIN_DELAY\<close>, and each failed attempt makes it
  \<open>min (prev * 2, MAX_DELAY)\<close>.\<close>

fun base_delay :: "nat \<Rightarrow> rat" where
  "base_delay 0 = MIN_DELAY"
| "base_delay (Suc k) = min (base_delay k * 2) MAX_DELAY"

text \<open>A failed attempt to connect that the loop catches.\<close>

definition failed_attempt :: "event \<Rightarrow> bool" where
  "failed_attempt e = (case e of Connect (Raise x) \<Rightarrow> is_Exception x | _ \<Rightarrow> False)"

lemma failed_attempt_simps [simp]:
  "failed_attempt (Connect Ok) = False"
  "failed_attempt (Connect (Raise x)) = is_Exception x"
  "failed_attempt (Sleep a) = False" "failed_attempt (Get a) = False"
  "failed_attempt (Send a) = False"
  by (simp_all add: failed_attempt_def)

lemma after_failure_delay:
  "fst (after_failure rng d s) = min (d * 2) MAX_DELAY"
  "sleeps (snd (after_failure rng d s)) =
     sleeps s @ [min (d * 2) MAX_DELAY + uniform 0 (min (d * 2) MAX_DELAY) (rng (draws s))]"
  "draws (snd (after_failure rng d s)) = Suc (draws s)"
  by (auto simp: after_failure_def backoff_def dbg_def Let_def min_def)

text \<open>The sleeps \<open>ws\<close> follow the base delays after the \<open>n\<close>-th, with the jitter drawn
  from \<open>rng\<close> at the draws \<open>d0\<close>, \<open>d0 + 1\<close>, ...\<close>

definition backoff_sleeps :: "(nat \<Rightarrow> rat) \<Rightarrow> nat \<Rightarrow> nat \<Rightarrow> rat list \<Rightarrow> bool" where
  "backoff_sleeps rng n d0 ws =
     (\<forall>k<length ws. ws ! k =
        base_delay (n + Suc k) + uniform 0 (base_delay (n + Suc k)) (rng (d0 + k)))"

lemma backoff_sleeps_Nil [simp]: "backoff_sleeps rng n d0 []"
  by (simp add: backoff_sleeps_def)

lemma backoff_sleeps_Cons:
  "backoff_sleeps rng n d0 (w # ws) \<longleftrightarrow>
     w = base_delay (Suc n) + uniform 0 (base_delay (Suc n)) (rng d0)
     \<and> backoff_sleeps rng (Suc n) (Suc d0) ws"
  by (simp add: backoff_sleeps_def All_less_Suc2)


lemma reopen_loop_sleeps:
  assumes "reopen_loop rng d es s = (out, es', s')" and "d = base_delay n"
  shows "\<exists>used ws. es = used @ es' \<and> sleeps s' = sleeps s @ ws
     \<and> length ws = length (filter failed_attempt used)
     \<and> backoff_sleeps rng n (draws s) ws"
  using assms
proof (induction d es s arbitrary: n rule: reopen_induct [where rng = rng])
  case (Connected d es s)
  then show ?case
    by (intro exI [of _ "[Connect Ok]"] exI [of _ "[]"]) (auto simp: reopen_eqs)
next
  case (Fatal d x es s)
  then show ?case
    by (intro exI [of _ "[Connect (Raise x)]"] exI [of _ "[]"]) (auto simp: reopen_eqs)
next
  case (Retry d x es s)
  have d': "fst (after_failure rng d s) = base_delay (Suc n)"
    using Retry.prems(2) by (simp add: after_failure_delay)
  have r: "reopen_loop rng (fst (after_failure rng d s)) es (snd (after_failure rng d s)) =
      (out, es', s')"
    using Retry.prems(1) Retry(1) by (simp add: reopen_eqs)
  from Retry.IH [OF r d'] obtain used ws where
    u: "es = used @ es'" "sleeps s' = sleeps (snd (after_failure rng d s)) @ ws"
      "length ws = length (filter failed_attempt used)"
      "backoff_sleeps rng (Suc n) (draws (snd (after_failure rng d s))) ws"
    by blast
  let ?w = "base_delay (Suc n) + uniform 0 (base_delay (Suc n)) (rng (draws s))"
  have "sleeps s' = sleeps s @ ?w # ws"
    using u(2) Retry.prems(2) by (simp add: after_failure_delay)
  moreover have "backoff_sleeps rng n (draws s) (?w # ws)"
    using u(4) by (simp add: backoff_sleeps_Cons after_failure_delay)
  ultimately show ?case using u(1,3) Retry(1)
    by (intro exI [of _ "Connect (Raise x) # Sleep Ok # used"] exI [of _ "?w # ws"]) simp
next
  case (SleepRaises d x y es s)
  let ?w = "base_delay (Suc n) + uniform 0 (base_delay (Suc n)) (rng (draws s))"
  from SleepRaises show ?case
    by (intro exI [of _ "[Connect (Raise x), Sleep (Raise y)]"] exI [of _ "[?w]"])
       (auto simp: reopen_eqs after_failure_delay backoff_sleeps_Cons)
next
  case (NoSleep d x es s)
  let ?w = "base_delay (Suc n) + uniform 0 (base_delay (Suc n)) (rng (draws s))"
  from NoSleep show ?case
    by (intro exI [of _ "[Connect (Raise x)]"] exI [of _ "[?w]"])
       (auto simp: reopen_eqs after_failure_delay backoff_sleeps_Cons)
next
  case (NoConnect d es s)
  then show ?case
    by (intro exI [of _ "[]"] exI [of _ "[]"]) (auto simp: reopen_eqs)
qed

lemma base_delay_values:
  "base_delay (Suc 0) = 1 / 5" "base_delay (Suc (Suc 0)) = 2 / 5"
  "base_delay (Suc (Suc (Suc 0))) = 4 / 5"
  "base_delay (Suc (Suc (Suc (Suc 0)))) = 8 / 5"
  "base_delay (Suc (Suc (Suc (Suc (Suc 0))))) = 16 / 5"
  "base_delay (Suc (Suc (Suc (Suc (Suc (Suc 0)))))) = 32 / 5"
  "base_delay (Suc (Suc (Suc (Suc (Suc (Suc (Suc 0))))))) = 10"
  by (simp_all add: MIN_DELAY_def MAX_DELAY_def)

lemma base_delay_capped: "6 \<le> k \<Longrightarrow> base_delay (Suc k) = 10"
proof (induction k)
  case 0
  then show ?case by simp
next
  case (Suc k)
  show ?case
  proof (cases "k = 5")
    case True
    then have "Suc (Suc k) = Suc (Suc (Suc (Suc (Suc (Suc (Suc 0))))))" by simp
    then show ?thesis by (simp only: base_delay_values)
  next
    case False
    with Suc have "base_delay (Suc k) = 10" by simp
    then have "base_delay (Suc (Suc k)) = min (10 * 2) MAX_DELAY"
      by (simp only: base_delay.simps)
    then show ?thesis by (simp add: MAX_DELAY_def)
  qed
qed

lemma base_delay_closed:
  "base_delay (Suc k) = (if k < 6 then 2 ^ Suc k / 10 else 10)"
proof (cases "k < 6")
  case False
  then have "6 \<le> k" by simp
  from base_delay_capped [OF this] False show ?thesis by (simp only: if_False)
next
  case True
  then consider "k = 0" | "k = Suc 0" | "k = Suc (Suc 0)" | "k = Suc (Suc (Suc 0))"
    | "k = Suc (Suc (Suc (Suc 0)))" | "k = Suc (Suc (Suc (Suc (Suc 0))))"
    by arith
  then show ?thesis
    by cases (simp_all only: base_delay_values, simp_all)
qed

lemma base_delay_pos: "0 < base_delay k"
  by (induction k) (simp_all add: MIN_DELAY_def MAX_DELAY_def)


lemma uniform_bounds:
  assumes "0 \<le> u" "u \<le> 1" "0 \<le> d"
  shows "0 \<le> uniform 0 d u" and "uniform 0 d u \<le> d"
proof -
  show "0 \<le> uniform 0 d u" using assms by (simp add: uniform_def)
  have "d * u \<le> d * 1" using assms by (intro mult_left_mono) auto
  then show "uniform 0 d u \<le> d" by (simp add: uniform_def)
qed

text \<open>
  Claim C2.  In every call of \<open>reopenConnection\<close>, whatever the state it starts from,
  there is one sleep for each failed attempt to connect; the \<open>k\<close>-th sleep lasts the
  \<open>k\<close>-th base delay plus a jitter between 0 and that delay, so between the delay and its
  double.  The base delays start from \<open>MIN_DELAY\<close> in every call and are
  0.2, 0.4, 0.8, 1.6, 3.2, 6.4 and then 10 for ever.  (Delays are rational numbers here.)
\<close>

theorem backoff_doubles_capped_with_jitter:
  assumes "\<forall>n. 0 \<le> rng n \<and> rng n \<le> 1"
    and "reopenConnection rng es s = (out, es', s')"
    and "es = used @ es'"
  shows "(\<exists>ws. sleeps s' = sleeps s @ ws
          \<and> length ws = length (filter failed_attempt used)
          \<and> (\<forall>k<length ws.
                ws ! k = base_delay (Suc k) + uniform 0 (base_delay (Suc k)) (rng (draws s + k))
                \<and> 0 \<le> uniform 0 (base_delay (Suc k)) (rng (draws s + k))
                \<and> uniform 0 (base_delay (Suc k)) (rng (draws s + k)) \<le> base_delay (Suc k)
                \<and> base_delay (Suc k) \<le> ws ! k \<and> ws ! k \<le> 2 * base_delay (Suc k)))
    \<and> base_delay 0 = MIN_DELAY
    \<and> (\<forall>k. base_delay (Suc k) = min (base_delay k * 2) MAX_DELAY)
    \<and> (\<forall>k. base_delay (Suc k) = (if k < 6 then 2 ^ Suc k / 10 else 10))"
proof -
  have r: "reopen_loop rng MIN_DELAY es (closeConnection s) = (out, es', s')"
    using assms(2) by (simp add: reopenConnection_def)
  from reopen_loop_sleeps [OF r, of 0] obtain u ws where
    u: "es = u @ es'" "sleeps s' = sleeps s @ ws"
      "length ws = length (filter failed_attempt u)" "backoff_sleeps rng 0 (draws s) ws"
    by auto
  have uu: "u = used" using u(1) assms(3) by simp
  have "ws ! k = base_delay (Suc k) + uniform 0 (base_delay (Suc k)) (rng (draws s + k))
      \<and> 0 \<le> uniform 0 (base_delay (Suc k)) (rng (draws s + k))
      \<and> uniform 0 (base_delay (Suc k)) (rng (draws s + k)) \<le> base_delay (Suc k)
      \<and> base_delay (Suc k) \<le> ws ! k \<and> ws ! k \<le> 2 * base_delay (Suc k)"
    if "k < length ws" for k
  proof -
    let ?d = "base_delay (Suc k)"
    let ?j = "uniform 0 ?d (rng (draws s + k))"
    have w: "ws ! k = ?d + ?j" using u(4) that by (simp add: backoff_sleeps_def)
    have d: "0 \<le> ?d" using base_delay_pos [of "Suc k"] by simp
    have j: "0 \<le> ?j" "?j \<le> ?d"
      using uniform_bounds [OF _ _ d, of "rng (draws s + k)"] assms(1) by auto
    from w j show ?thesis by simp
  qed
  then have A: "\<exists>ws. sleeps s' = sleeps s @ ws
      \<and> length ws = length (filter failed_attempt used)
      \<and> (\<forall>k<length ws.
            ws ! k = base_delay (Suc k) + uniform 0 (base_delay (Suc k)) (rng (draws s + k))
            \<and> 0 \<le> uniform 0 (base_delay (Suc k)) (rng (draws s + k))
            \<and> uniform 0 (base_delay (Suc k)) (rng (draws s + k)) \<le> base_delay (Suc k)
            \<and> base_delay (Suc k) \<le> ws ! k \<and> ws ! k \<le> 2 * base_delay (Suc k))"
    using u(2,3) uu by blast
  have B: "base_delay 0 = MIN_DELAY" by simp
  have C: "\<forall>k. base_delay (Suc k) = min (base_delay k * 2) MAX_DELAY" by simp
  have D: "\<forall>k. base_delay (Suc k) = (if k < 6 then 2 ^ Suc k / 10 else 10)"
    using base_delay_closed by blast
  show ?thesis by (rule conjI [OF A conjI [OF B conjI [OF C D]]])
qed

theorem backoff_doubles_capped_with_jitter_witness:
  "sleeps (snd (snd (reopenConnection (\<lambda>n. 1 / 2)
      [Connect (Raise SocketError), Sleep Ok, Connect (Raise OtherError), Sleep Ok, Connect Ok,
       Get Ok]
      demo_appender))) = [3 / 10, 3 / 5]
   \<and> sleeps (snd (snd (run (\<lambda>n. 1 / 2)
      [Connect (Raise SocketError), Sleep Ok, Connect (Raise SocketError), Sleep Ok, Connect Ok,
       Get Ok, Send (Raise SocketError), Connect (Raise SocketError), Sleep Ok, Connect Ok,
       Send Ok]
      demo_appender))) = [3 / 10, 3 / 5, 3 / 10]"
proof -
  let ?rng = "\<lambda>n::nat. 1 / 2 :: rat"
  let ?used = "[Connect (Raise SocketError), Sleep Ok, Connect (Raise OtherError), Sleep Ok,
    Connect Ok]"
  have a: "\<forall>n. 0 \<le> ?rng n \<and> ?rng n \<le> 1" by simp
  obtain out s' where
    r: "reopenConnection ?rng (?used @ [Get Ok]) demo_appender = (out, [Get Ok], s')"
      and w: "sleeps s' = [3 / 10, 3 / 5]"
    by (simp add: demo_appender_def eval_defs)
  have e: "?used @ [Get Ok] = ?used @ [Get Ok]" by simp
  have "sleeps (snd (snd (run ?rng
      [Connect (Raise SocketError), Sleep Ok, Connect (Raise SocketError), Sleep Ok, Connect Ok,
       Get Ok, Send (Raise SocketError), Connect (Raise SocketError), Sleep Ok, Connect Ok,
       Send Ok]
      demo_appender))) = [3 / 10, 3 / 5, 3 / 10]"
    by (simp add: run_def demo_appender_def eval_defs)
  with backoff_doubles_capped_with_jitter [OF a r e] show ?thesis
    using r w by simp
qed


section \<open>Submission after an interrupt\<close>

text \<open>After \<open>run\<close> has returned on an interrupt the thread is not alive, and \<open>emit\<close>
  tests \<open>is_alive\<close> only: with a good configuration it calls \<open>start\<close> on the finished
  thread.\<close>

lemma emit_after_interrupt:
  assumes "started h" and "good_config h"
    and "run rng es (thread h) = (out, es', s')" and "es = used @ es'" and "interrupted used"
  shows "tstate (thread (dispatch rng es h)) = Stopped
    \<and> fst (emit t (dispatch rng es h)) = Raised RuntimeError
    \<and> queue (thread (snd (emit t (dispatch rng es h)))) = queue (thread (dispatch rng es h))"
proof -
  from run_control [OF assms(3)] obtain u where
    u: "es = u @ es'" "if out = Normal then u \<noteq> [] else \<not> interrupted u"
    by (auto split: if_splits)
  have "u = used" using u(1) assms(4) by simp
  with u(2) assms(5) have n: "out = Normal" by (auto split: if_splits)
  have d: "dispatch rng es h = h\<lparr>thread := s'\<lparr>tstate := Stopped\<rparr>\<rparr>"
    using assms(1,3) n by (simp add: dispatch_def started_def)
  have "tstate (thread (dispatch rng es h)) = Stopped" "good_config (dispatch rng es h)"
    using d assms(2) by simp_all
  then show ?thesis by (simp add: emit_stopped)
qed


end
